theory Spec2Isabelle
  imports Main "HOL-Library.Word" "HOL-Library.Product_Lexorder"
begin

unbundle bit_operations_syntax

section \<open>Data model\<close>

text \<open>
  Modelled from the spec: the enumeration \<open>HighlightingKind\<close> is declared in
  SemanticHighlighting.h, which is not among the sources. The enumerators and their order
  are those of section 3 of the specification; the two \<open>switch\<close> statements of
  SemanticHighlighting.cpp (\<open>operator<<\<close> and \<open>toTextMateScope\<close>) name the same
  eighteen enumerators.
\<close>

datatype HighlightingKind =
    Variable | LocalVariable | Parameter | Function | Method | StaticMethod
  | Field | StaticField | Class | Enum | EnumConstant | Typedef
  | DependentType | DependentName | Namespace | TemplateParameter
  | Primitive | Macro

text \<open>
  Modelled from the spec: the ordinal of a kind, \<open>static_cast<int>(Kind)\<close>, is its
  position in the enumeration, counted from zero.
\<close>

fun kindOrdinal :: "HighlightingKind \<Rightarrow> nat" where
  "kindOrdinal Variable = 0"
| "kindOrdinal LocalVariable = 1"
| "kindOrdinal Parameter = 2"
| "kindOrdinal Function = 3"
| "kindOrdinal Method = 4"
| "kindOrdinal StaticMethod = 5"
| "kindOrdinal Field = 6"
| "kindOrdinal StaticField = 7"
| "kindOrdinal Class = 8"
| "kindOrdinal Enum = 9"
| "kindOrdinal EnumConstant = 10"
| "kindOrdinal Typedef = 11"
| "kindOrdinal DependentType = 12"
| "kindOrdinal DependentName = 13"
| "kindOrdinal Namespace = 14"
| "kindOrdinal TemplateParameter = 15"
| "kindOrdinal Primitive = 16"
| "kindOrdinal Macro = 17"

text \<open>
  Modelled from the spec: \<open>Position\<close> and \<open>Range\<close> are declared in Protocol.h, which
  is not among the sources. Both fields of a position are C++ \<open>int\<close>s, here 32-bit words
  read as two's complement by \<open>sint\<close>. A range is a start and an end position.
\<close>

record Position =
  line :: "32 word"
  character :: "32 word"

record Range =
  start :: Position
  end' :: Position

record HighlightingToken =
  Kind :: HighlightingKind
  R :: Range

record LineHighlightings =
  Line :: int
  Tokens :: "HighlightingToken list"

record SemanticHighlightingInformation =
  InfoLine :: int
  InfoTokens :: string

text \<open>
  Modelled from the spec: the canonical order. A position is compared by
  \<open>(line, character)\<close>, a range by \<open>(start, end)\<close>, and a token by
  \<open>(R, Kind)\<close> (\<open>operator<\<close> of SemanticHighlighting.cpp), each lexicographically.
\<close>

definition positionKey :: "Position \<Rightarrow> int \<times> int" where
  "positionKey P = (sint (line P), sint (character P))"

definition rangeKey :: "Range \<Rightarrow> (int \<times> int) \<times> (int \<times> int)" where
  "rangeKey Rg = (positionKey (start Rg), positionKey (end' Rg))"

definition tokenKey :: "HighlightingToken \<Rightarrow> ((int \<times> int) \<times> (int \<times> int)) \<times> nat" where
  "tokenKey T = (rangeKey (R T), kindOrdinal (Kind T))"

definition tokenLess :: "HighlightingToken \<Rightarrow> HighlightingToken \<Rightarrow> bool" where
  "tokenLess L Rt = (tokenKey L < tokenKey Rt)"

definition is_sorted :: "HighlightingToken list \<Rightarrow> bool" where
  "is_sorted Ts = sorted (map tokenKey Ts)"

section \<open>Classifier\<close>

text \<open>
  The declarations and types of the resolved tree, by their dynamic class, with the
  attributes that the classifier reads. A pointer that may be null is an \<open>option\<close>.
\<close>

datatype NamedDecl =
    UsingShadowDecl "NamedDecl option"
  | ClassTemplateDecl "NamedDecl option"
  | TemplateTemplateParmDecl "NamedDecl option"
  | OtherTemplateDecl "NamedDecl option"
  | TypedefNameDecl "Type option"
  | RecordDecl bool
  | CXXConstructorDecl
  | CXXMethodDecl bool
  | FieldDecl
  | EnumDecl
  | EnumConstantDecl
  | ParmVarDecl
  | VarDecl bool bool
  | BindingDecl
  | FunctionDecl
  | NamespaceDecl
  | NamespaceAliasDecl
  | UsingDirectiveDecl
  | TemplateTypeParmDecl
  | NonTypeTemplateParmDecl
  | OtherDecl
and Type =
    BuiltinType
  | TemplateTypeParmType NamedDecl
  | TagType NamedDecl
  | OtherType

text \<open>\<open>getTargetDecl\<close> of a using-shadow declaration, when \<open>D\<close> is one and it is not null.\<close>

fun unwrapUsingShadow :: "NamedDecl \<Rightarrow> NamedDecl" where
  "unwrapUsingShadow (UsingShadowDecl (Some Target)) = Target"
| "unwrapUsingShadow D = D"

text \<open>\<open>getTemplatedDecl\<close> of a template declaration, when \<open>D\<close> is one and it is not null.\<close>

fun unwrapTemplate :: "NamedDecl \<Rightarrow> NamedDecl" where
  "unwrapTemplate (ClassTemplateDecl (Some Templated)) = Templated"
| "unwrapTemplate (TemplateTemplateParmDecl (Some Templated)) = Templated"
| "unwrapTemplate (OtherTemplateDecl (Some Templated)) = Templated"
| "unwrapTemplate D = D"

fun isaTypedefNameDecl :: "NamedDecl \<Rightarrow> bool" where
  "isaTypedefNameDecl (TypedefNameDecl _) = True"
| "isaTypedefNameDecl _ = False"

fun getUnderlyingType :: "NamedDecl \<Rightarrow> Type option" where
  "getUnderlyingType (TypedefNameDecl T) = T"
| "getUnderlyingType _ = None"

lemma size_unwrapUsingShadow: "size (unwrapUsingShadow D) \<le> size D"
  by (induction D rule: unwrapUsingShadow.induct) simp_all

lemma size_unwrapTemplate: "size (unwrapTemplate D) \<le> size D"
  by (induction D rule: unwrapTemplate.induct) simp_all

lemma size_getUnderlyingType:
  "getUnderlyingType D = Some T \<Longrightarrow> size T < size D"
  by (cases D) auto

fun typeMeasure :: "Type option \<Rightarrow> nat" where
  "typeMeasure None = 0"
| "typeMeasure (Some T) = 2 * size T"

text \<open>
  The classification of a declaration that is neither a using-shadow, a template with a
  templated declaration, nor a typedef name: the chain of \<open>isa\<close> tests of \<open>kindForDecl\<close>,
  in the order of the source. A constructor is a method and a function, a parameter is a
  variable: the earlier test wins.
\<close>

fun kindForPlainDecl :: "NamedDecl \<Rightarrow> HighlightingKind option" where
  "kindForPlainDecl (RecordDecl isLambda) = (if isLambda then None else Some Class)"
| "kindForPlainDecl (ClassTemplateDecl _) = Some Class"
| "kindForPlainDecl CXXConstructorDecl = Some Class"
| "kindForPlainDecl (CXXMethodDecl isStatic) = (if isStatic then Some StaticMethod else Some Method)"
| "kindForPlainDecl FieldDecl = Some Field"
| "kindForPlainDecl EnumDecl = Some Enum"
| "kindForPlainDecl EnumConstantDecl = Some EnumConstant"
| "kindForPlainDecl ParmVarDecl = Some Parameter"
| "kindForPlainDecl (VarDecl isStaticDataMember isLocalVarDecl) =
     (if isStaticDataMember then Some StaticField
      else if isLocalVarDecl then Some LocalVariable else Some Variable)"
| "kindForPlainDecl BindingDecl = Some Variable"
| "kindForPlainDecl FunctionDecl = Some Function"
| "kindForPlainDecl NamespaceDecl = Some Namespace"
| "kindForPlainDecl NamespaceAliasDecl = Some Namespace"
| "kindForPlainDecl UsingDirectiveDecl = Some Namespace"
| "kindForPlainDecl (TemplateTemplateParmDecl _) = Some TemplateParameter"
| "kindForPlainDecl TemplateTypeParmDecl = Some TemplateParameter"
| "kindForPlainDecl NonTypeTemplateParmDecl = Some TemplateParameter"
| "kindForPlainDecl _ = None"

function kindForDecl :: "NamedDecl \<Rightarrow> HighlightingKind option"
  and kindForType :: "Type option \<Rightarrow> HighlightingKind option" where
  "kindForDecl D0 =
     (let D = unwrapTemplate (unwrapUsingShadow D0) in
      if isaTypedefNameDecl D then
        (case kindForType (getUnderlyingType D) of
           Some K \<Rightarrow> Some K
         | None \<Rightarrow> Some Typedef)
      else kindForPlainDecl D)"
| "kindForType None = None"
| "kindForType (Some BuiltinType) = Some Primitive"
| "kindForType (Some (TemplateTypeParmType TD)) = kindForDecl TD"
| "kindForType (Some (TagType TD)) = kindForDecl TD"
| "kindForType (Some OtherType) = None"
  by pat_completeness auto

termination
proof (relation "measure (\<lambda>x. case x of Inl D \<Rightarrow> 2 * size D + 1 | Inr T \<Rightarrow> typeMeasure T)")
  show "wf (measure (\<lambda>x. case x of Inl D \<Rightarrow> 2 * size D + 1 | Inr T \<Rightarrow> typeMeasure T))"
    by simp
next
  fix D0 D
  assume D: "D = unwrapTemplate (unwrapUsingShadow D0)" and "isaTypedefNameDecl D"
  have le: "size D \<le> size D0"
    unfolding D using size_unwrapTemplate size_unwrapUsingShadow order_trans by blast
  show "(Inr (getUnderlyingType D), Inl D0)
      \<in> measure (\<lambda>x. case x of Inl D \<Rightarrow> 2 * size D + 1 | Inr T \<Rightarrow> typeMeasure T)"
  proof (cases "getUnderlyingType D")
    case None
    then show ?thesis by simp
  next
    case (Some T)
    from size_getUnderlyingType [OF Some] le show ?thesis
      using Some by simp
  qed
qed simp_all

text \<open>
  \<open>kindForCandidateDecls\<close>: the loop over the candidates, with the local \<open>Result\<close> as
  an accumulator; an early \<open>return llvm::None\<close> ends the loop.
\<close>

fun kindForCandidateDeclsLoop ::
  "HighlightingKind option \<Rightarrow> NamedDecl list \<Rightarrow> HighlightingKind option" where
  "kindForCandidateDeclsLoop Result [] = Result"
| "kindForCandidateDeclsLoop Result (Decl # Decls) =
     (let K = kindForDecl Decl in
      if K = None \<or> (Result \<noteq> None \<and> K \<noteq> Result) then None
      else kindForCandidateDeclsLoop K Decls)"

definition kindForCandidateDecls :: "NamedDecl list \<Rightarrow> HighlightingKind option" where
  "kindForCandidateDecls Decls = kindForCandidateDeclsLoop None Decls"


section \<open>Tree walker\<close>

text \<open>
  The name of a declaration, as far as \<open>canHighlightName\<close> reads it: its kind, and for an
  identifier the \<open>IdentifierInfo\<close> (which may be null) with its spelling.
\<close>

datatype DeclarationName =
    Identifier "string option"
  | CXXConstructorName
  | CXXUsingDirective
  | OtherName

fun canHighlightName :: "DeclarationName \<Rightarrow> bool" where
  "canHighlightName CXXConstructorName = True"
| "canHighlightName CXXUsingDirective = True"
| "canHighlightName (Identifier (Some Name)) = (Name \<noteq> [])"
| "canHighlightName _ = False"

text \<open>
  What \<open>addToken\<close> asks about a source location. \<open>SourceLocation\<close>, the source manager,
  \<open>isInsideMainFile\<close> and \<open>getTokenRange\<close> are not among the sources: they are the
  fields of this record, over any type of locations.
\<close>

record 'loc ParsedAST =
  isInvalid :: "'loc \<Rightarrow> bool"
  isMacroID :: "'loc \<Rightarrow> bool"
  isMacroArgExpansion :: "'loc \<Rightarrow> bool"
  getSpellingLoc :: "'loc \<Rightarrow> 'loc"
  isInsideMainFile :: "'loc \<Rightarrow> bool"
  getTokenRange :: "'loc \<Rightarrow> Range option"

text \<open>The collector's member \<open>Tokens\<close>, and the lines written by \<open>elog\<close>.\<close>

record Collector =
  TokensC :: "HighlightingToken list"
  Elog :: "string list"

definition addToken ::
  "'loc ParsedAST \<Rightarrow> 'loc \<Rightarrow> HighlightingKind \<Rightarrow> Collector \<Rightarrow> Collector" where
  "addToken AST Loc0 K C =
     (if isInvalid AST Loc0 then C
      else if isMacroID AST Loc0 \<and> \<not> isMacroArgExpansion AST Loc0 then C
      else
        (let Loc = (if isMacroID AST Loc0 then getSpellingLoc AST Loc0 else Loc0) in
         if \<not> isInsideMainFile AST Loc then C
         else
           (case getTokenRange AST Loc of
              None \<Rightarrow>
                C\<lparr>Elog := Elog C @ [''Tried to add semantic token with an invalid range'']\<rparr>
            | Some Rg \<Rightarrow>
                C\<lparr>TokensC := TokensC C @ [\<lparr>Kind = K, R = Rg\<rparr>]\<rparr>)))"

text \<open>The overload of \<open>addToken\<close> that takes a declaration.\<close>

definition addTokenDecl ::
  "'loc ParsedAST \<Rightarrow> 'loc \<Rightarrow> NamedDecl \<Rightarrow> Collector \<Rightarrow> Collector" where
  "addTokenDecl AST Loc D C =
     (case kindForDecl D of Some K \<Rightarrow> addToken AST Loc K C | None \<Rightarrow> C)"

record 'loc OverloadExpr =
  getName :: DeclarationName
  getNameLoc :: "'loc"
  decls :: "NamedDecl list"

record 'loc UsingDecl =
  getLocation :: "'loc"
  shadows :: "NamedDecl list"

text \<open>
  A visitor returns the collector it leaves and the flag that tells the traversal to go on.
\<close>

definition VisitOverloadExpr ::
  "'loc ParsedAST \<Rightarrow> 'loc OverloadExpr \<Rightarrow> Collector \<Rightarrow> bool \<times> Collector" where
  "VisitOverloadExpr AST E C =
     (if canHighlightName (getName E)
      then (True, addToken AST (getNameLoc E)
                    (case kindForCandidateDecls (decls E) of
                       Some K \<Rightarrow> K | None \<Rightarrow> DependentName) C)
      else (True, C))"

definition VisitUsingDecl ::
  "'loc ParsedAST \<Rightarrow> 'loc UsingDecl \<Rightarrow> Collector \<Rightarrow> bool \<times> Collector" where
  "VisitUsingDecl AST UD C =
     (case kindForCandidateDecls (shadows UD) of
        Some K \<Rightarrow> (True, addToken AST (getLocation UD) K C)
      | None \<Rightarrow> (True, C))"


text \<open>
  An example over locations that are numbers: 0 is the invalid location, the locations
  from 100 on are macro locations, those from 200 on expansions of macro arguments; a
  macro location is spelled 100 below it, and the main file holds the locations below 50.
\<close>

definition exampleRange :: Range where
  "exampleRange = \<lparr>start = \<lparr>line = 0, character = 0\<rparr>, end' = \<lparr>line = 0, character = 1\<rparr>\<rparr>"

definition exampleAST :: "nat ParsedAST" where
  "exampleAST =
     \<lparr>isInvalid = (\<lambda>L. L = 0), isMacroID = (\<lambda>L. 100 \<le> L),
      isMacroArgExpansion = (\<lambda>L. 200 \<le> L), getSpellingLoc = (\<lambda>L. L - 100),
      isInsideMainFile = (\<lambda>L. L < 50), getTokenRange = (\<lambda>L. Some exampleRange)\<rparr>"

section \<open>Token collector\<close>

text \<open>
  The last loop of \<open>collectTokens\<close>: \<open>TokRef\<close> is the part of the sorted tokens still to
  be read, \<open>Conflicting\<close> its longest prefix of tokens with the range of its first token.
\<close>

function nonConflictingLoop ::
  "HighlightingToken list \<Rightarrow> HighlightingToken list \<Rightarrow> HighlightingToken list" where
  "nonConflictingLoop [] NonConflicting = NonConflicting"
| "nonConflictingLoop (Front # Rest) NonConflicting =
     (let Conflicting = takeWhile (\<lambda>T. R T = R Front) (Front # Rest) in
      nonConflictingLoop (drop (length Conflicting) (Front # Rest))
        (if length Conflicting = 1 then NonConflicting @ [Front] else NonConflicting))"
  by pat_completeness auto

termination
  by (relation "measure (\<lambda>(TokRef, NonConflicting). length TokRef)") auto

text \<open>
  \<open>collectTokens\<close>. The traversal of the tree is a parameter: it takes the collector with
  its tokens cleared and returns it with the tokens that the visitors added.
  \<open>llvm::sort\<close> orders the tokens by \<open>operator<\<close>, that is by \<open>tokenKey\<close>; the key
  determines the token, so the sorted sequence does not depend on the sorting algorithm.
  \<open>std::unique\<close> with \<open>erase\<close> removes each token equal to the one before it.
\<close>

definition collectTokens ::
  "(Collector \<Rightarrow> Collector) \<Rightarrow> Range list \<Rightarrow> Collector \<Rightarrow> HighlightingToken list" where
  "collectTokens TraverseAST Macros C =
     (let Tokens0 = TokensC (TraverseAST (C\<lparr>TokensC := []\<rparr>));
          Tokens1 = Tokens0 @ map (\<lambda>M. \<lparr>Kind = Macro, R = M\<rparr>) Macros;
          Tokens2 = sort_key tokenKey Tokens1;
          Tokens3 = remdups_adj Tokens2
      in nonConflictingLoop Tokens3 [])"

section \<open>Diff engine\<close>

definition startLine :: "HighlightingToken \<Rightarrow> int" where
  "startLine Token = sint (line (start (R Token)))"

text \<open>
  \<open>takeLine\<close>: the first argument is the part of \<open>AllTokens\<close> from \<open>StartLineIt\<close> to its end.
\<close>

definition takeLine :: "HighlightingToken list \<Rightarrow> int \<Rightarrow> HighlightingToken list" where
  "takeLine FromStartLineIt LineNo = takeWhile (\<lambda>Token. startLine Token = LineNo) FromStartLineIt"

definition INT_MAX :: int where
  "INT_MAX = 2147483647"

text \<open>
  \<open>NextLineNumber\<close>: the arguments are the parts of \<open>New\<close> and \<open>Old\<close> from \<open>NewLine.end()\<close>
  and \<open>OldLine.end()\<close> on.
\<close>

definition NextLineNumber :: "HighlightingToken list \<Rightarrow> HighlightingToken list \<Rightarrow> int" where
  "NextLineNumber NewRest OldRest =
     (let NextNew = (case NewRest of [] \<Rightarrow> INT_MAX | Token # _ \<Rightarrow> startLine Token);
          NextOld = (case OldRest of [] \<Rightarrow> INT_MAX | Token # _ \<Rightarrow> startLine Token)
      in min NextNew NextOld)"

lemma startLine_le_INT_MAX: "startLine Token \<le> INT_MAX"
  using sint_lt [of "line (start (R Token))"] by (simp add: startLine_def INT_MAX_def)

lemma NextLineNumber_progress:
  assumes "NewRest \<noteq> [] \<or> OldRest \<noteq> []"
  shows "takeLine NewRest (NextLineNumber NewRest OldRest) \<noteq> []
       \<or> takeLine OldRest (NextLineNumber NewRest OldRest) \<noteq> []"
proof (cases NewRest)
  case Nil
  with assms obtain T Ts where "OldRest = T # Ts" by (cases OldRest) auto
  with Nil show ?thesis
    using startLine_le_INT_MAX [of T] by (simp add: NextLineNumber_def takeLine_def min_def Let_def)
next
  case N: (Cons T Ts)
  show ?thesis
  proof (cases OldRest)
    case Nil
    with N show ?thesis
      using startLine_le_INT_MAX [of T] by (simp add: NextLineNumber_def takeLine_def min_def Let_def)
  next
    case (Cons T' Ts')
    with N show ?thesis by (simp add: NextLineNumber_def takeLine_def min_def Let_def)
  qed
qed

text \<open>
  The loop of \<open>diffHighlightings\<close>, entered at its condition. The first line number is
  the one given; each later one is \<open>NextLineNumber()\<close>.
\<close>

function diffLoop ::
  "int \<Rightarrow> HighlightingToken list \<Rightarrow> HighlightingToken list
     \<Rightarrow> LineHighlightings list \<Rightarrow> LineHighlightings list" where
  "diffLoop LineNumber NewRest OldRest DiffedLines =
     (if NewRest \<noteq> [] \<or> OldRest \<noteq> [] then
        (let NewLine = takeLine NewRest LineNumber;
             OldLine = takeLine OldRest LineNumber;
             DiffedLines' =
               (if NewLine \<noteq> OldLine
                then DiffedLines @ [\<lparr>Line = LineNumber, Tokens = NewLine\<rparr>]
                else DiffedLines);
             NewRest' = drop (length NewLine) NewRest;
             OldRest' = drop (length OldLine) OldRest
         in diffLoop (NextLineNumber NewRest' OldRest') NewRest' OldRest' DiffedLines')
      else DiffedLines)"
  by pat_completeness auto

termination
proof (relation "measure (\<lambda>(LineNumber, NewRest, OldRest, DiffedLines).
         2 * (length NewRest + length OldRest)
         + (if LineNumber = NextLineNumber NewRest OldRest then 0 else 1))")
  show "wf (measure (\<lambda>(LineNumber, NewRest, OldRest, DiffedLines).
         2 * (length NewRest + length OldRest)
         + (if LineNumber = NextLineNumber NewRest OldRest then 0 else 1)))"
    by simp
next
  fix LineNumber :: int
    and NewRest OldRest NewLine OldLine NewRest' OldRest' :: "HighlightingToken list"
    and DiffedLines DiffedLines' :: "LineHighlightings list"
  assume ne: "NewRest \<noteq> [] \<or> OldRest \<noteq> []"
    and NL: "NewLine = takeLine NewRest LineNumber"
    and OL: "OldLine = takeLine OldRest LineNumber"
    and NR: "NewRest' = drop (length NewLine) NewRest"
    and OR: "OldRest' = drop (length OldLine) OldRest"
  have le: "length NewRest' \<le> length NewRest" "length OldRest' \<le> length OldRest"
    by (simp_all add: NR OR)
  have "length NewRest' + length OldRest' < length NewRest + length OldRest"
    if eq: "LineNumber = NextLineNumber NewRest OldRest"
  proof -
    from NextLineNumber_progress [OF ne] eq
    have "NewLine \<noteq> [] \<or> OldLine \<noteq> []" by (simp add: NL OL)
    then show ?thesis
    proof
      assume "NewLine \<noteq> []"
      then have "NewRest \<noteq> []" "0 < length NewLine" by (auto simp: NL takeLine_def)
      then have "length NewRest' < length NewRest" by (simp add: NR)
      with le show ?thesis by simp
    next
      assume "OldLine \<noteq> []"
      then have "OldRest \<noteq> []" "0 < length OldLine" by (auto simp: OL takeLine_def)
      then have "length OldRest' < length OldRest" by (simp add: OR)
      with le show ?thesis by simp
    qed
  qed
  with le show "((NextLineNumber NewRest' OldRest', NewRest', OldRest', DiffedLines'),
          LineNumber, NewRest, OldRest, DiffedLines)
        \<in> measure (\<lambda>(LineNumber, NewRest, OldRest, DiffedLines).
             2 * (length NewRest + length OldRest)
             + (if LineNumber = NextLineNumber NewRest OldRest then 0 else 1))"
    by auto
qed

declare diffLoop.simps [simp del]

text \<open>
  \<open>diffHighlightings\<close>. Its two assertions are the precondition that both sequences are
  sorted: where one fails there is no result.
\<close>

definition diffHighlightings ::
  "HighlightingToken list \<Rightarrow> HighlightingToken list \<Rightarrow> LineHighlightings list option" where
  "diffHighlightings New Old =
     (if \<not> is_sorted New then None
      else if \<not> is_sorted Old then None
      else Some (diffLoop 0 New Old []))"


section \<open>Wire encoder\<close>

text \<open>
  A \<open>char\<close> is a byte. Whether plain \<open>char\<close> is signed is fixed by the target of the
  compiler (it is on x86, it is not on ARM Linux), so it is a parameter of the encoder:
  \<open>promoteChar\<close> is the integral promotion of a \<open>char\<close> to \<open>int\<close>.
\<close>

definition promoteChar :: "bool \<Rightarrow> 8 word \<Rightarrow> 32 word" where
  "promoteChar CharIsSigned B = (if CharIsSigned then scast B else ucast B)"

definition Table :: string where
  "Table = ''ABCDEFGHIJKLMNOPQRSTUVWXYZabcdefghijklmnopqrstuvwxyz0123456789+/''"

function encodeBase64Loop :: "bool \<Rightarrow> 8 word list \<Rightarrow> nat \<Rightarrow> string \<Rightarrow> nat \<times> string" where
  "encodeBase64Loop CharIsSigned Bytes I Res =
     (if I + 2 < length Bytes then
        (let X = push_bit 16 (promoteChar CharIsSigned (Bytes ! I))
                 + push_bit 8 (promoteChar CharIsSigned (Bytes ! (I + 1)))
                 + promoteChar CharIsSigned (Bytes ! (I + 2));
             Res1 = Res @ [Table ! unat (drop_bit 18 X AND 63)];
             Res2 = Res1 @ [Table ! unat (drop_bit 12 X AND 63)];
             Res3 = Res2 @ [Table ! unat (drop_bit 6 X AND 63)];
             Res4 = Res3 @ [Table ! unat (X AND 63)]
         in encodeBase64Loop CharIsSigned Bytes (I + 3) Res4)
      else (I, Res))"
  by pat_completeness auto

termination
  by (relation "measure (\<lambda>(CharIsSigned, Bytes, I, Res). length Bytes - I)") auto

declare encodeBase64Loop.simps [simp del]

definition encodeBase64 :: "bool \<Rightarrow> 8 word list \<Rightarrow> string" where
  "encodeBase64 CharIsSigned Bytes =
     (case encodeBase64Loop CharIsSigned Bytes 0 [] of (I, Res) \<Rightarrow>
        if I + 1 = length Bytes then
          (let X = push_bit 16 (promoteChar CharIsSigned (Bytes ! I)) in
           Res @ [Table ! unat (drop_bit 18 X AND 63)]
               @ [Table ! unat (drop_bit 12 X AND 63)]
               @ ''=='')
        else if I + 2 = length Bytes then
          (let X = push_bit 16 (promoteChar CharIsSigned (Bytes ! I))
                   + push_bit 8 (promoteChar CharIsSigned (Bytes ! (I + 1))) in
           Res @ [Table ! unat (drop_bit 18 X AND 63)]
               @ [Table ! unat (drop_bit 12 X AND 63)]
               @ [Table ! unat (drop_bit 6 X AND 63)]
               @ ''='')
        else Res)"

text \<open>
  The four characters that one round of the loop of \<open>encodeBase64\<close> appends for the
  three bytes that it reads.
\<close>

definition encodeGroup :: "bool \<Rightarrow> 8 word \<Rightarrow> 8 word \<Rightarrow> 8 word \<Rightarrow> string" where
  "encodeGroup CharIsSigned B0 B1 B2 =
     (let X = push_bit 16 (promoteChar CharIsSigned B0)
              + push_bit 8 (promoteChar CharIsSigned B1)
              + promoteChar CharIsSigned B2
      in [Table ! unat (drop_bit 18 X AND 63), Table ! unat (drop_bit 12 X AND 63),
          Table ! unat (drop_bit 6 X AND 63), Table ! unat (X AND 63)])"

text \<open>
  \<open>write32be\<close> and \<open>write16be\<close> append to the stream \<open>OS\<close> the bytes of \<open>I\<close>, the most
  significant one first (\<open>llvm::support::endian\<close>).
\<close>

definition write32be :: "32 word \<Rightarrow> 8 word list \<Rightarrow> 8 word list" where
  "write32be I OS = OS @ [ucast (drop_bit 24 I), ucast (drop_bit 16 I), ucast (drop_bit 8 I), ucast I]"

definition write16be :: "16 word \<Rightarrow> 8 word list \<Rightarrow> 8 word list" where
  "write16be I OS = OS @ [ucast (drop_bit 8 I), ucast I]"

text \<open>
  The inner loop of \<open>toSemanticHighlightingInformation\<close> over the tokens of a line. The
  subtraction is one of \<open>int\<close>s; its result and the ordinal of the kind are converted to
  \<open>uint16_t\<close> at the call of \<open>write16be\<close>.
\<close>

fun writeLineTokens :: "HighlightingToken list \<Rightarrow> 8 word list \<Rightarrow> 8 word list" where
  "writeLineTokens [] OS = OS"
| "writeLineTokens (Token # Ts) OS =
     (let OS1 = write32be (character (start (R Token))) OS;
          OS2 = write16be (ucast (character (end' (R Token)) - character (start (R Token)))) OS1;
          OS3 = write16be (word_of_nat (kindOrdinal (Kind Token))) OS2
      in writeLineTokens Ts OS3)"

definition toSemanticHighlightingInformation ::
  "bool \<Rightarrow> LineHighlightings list \<Rightarrow> SemanticHighlightingInformation list" where
  "toSemanticHighlightingInformation CharIsSigned Ls =
     (if length Ls = 0 then []
      else map (\<lambda>L. \<lparr>InfoLine = Line L,
                      InfoTokens = encodeBase64 CharIsSigned (writeLineTokens (Tokens L) [])\<rparr>) Ls)"

section \<open>Reference notions of the specification\<close>

text \<open>
  The per-start-line grouping of a token sequence, and the overwriting of a grouping with
  changed-line records, one after the other.
\<close>

definition tokensOnLine :: "HighlightingToken list \<Rightarrow> int \<Rightarrow> HighlightingToken list" where
  "tokensOnLine Ts LineNo = filter (\<lambda>Token. startLine Token = LineNo) Ts"

definition applyChangedLines ::
  "LineHighlightings list \<Rightarrow> (int \<Rightarrow> HighlightingToken list) \<Rightarrow> int \<Rightarrow> HighlightingToken list" where
  "applyChangedLines Ds G = foldl (\<lambda>G' D. G'(Line D := Tokens D)) G Ds"

text \<open>
  The decoder of a client: base64 with the standard alphabet and \<open>=\<close> padding, then
  records of eight bytes, each a start column of four bytes, a length of two and a kind
  ordinal of two, the most significant byte first.
\<close>

definition base64Value :: "char \<Rightarrow> 32 word" where
  "base64Value c = (if c = CHR ''='' then 0 else word_of_nat (length (takeWhile (\<lambda>x. x \<noteq> c) Table)))"

fun decodeBase64 :: "string \<Rightarrow> 8 word list" where
  "decodeBase64 (a # b # c # d # Rest) =
     (let X = push_bit 18 (base64Value a) + push_bit 12 (base64Value b)
              + push_bit 6 (base64Value c) + base64Value d
      in (if c = CHR ''='' then [ucast (drop_bit 16 X)]
          else if d = CHR ''='' then [ucast (drop_bit 16 X), ucast (drop_bit 8 X)]
          else [ucast (drop_bit 16 X), ucast (drop_bit 8 X), ucast X])
         @ decodeBase64 Rest)"
| "decodeBase64 _ = []"

definition bigEndian :: "8 word list \<Rightarrow> nat" where
  "bigEndian Bs = foldl (\<lambda>A B. 256 * A + unat B) 0 Bs"

fun decodeRecords :: "8 word list \<Rightarrow> (nat \<times> nat \<times> nat) list" where
  "decodeRecords (b0 # b1 # b2 # b3 # b4 # b5 # b6 # b7 # Rest) =
     (bigEndian [b0, b1, b2, b3], bigEndian [b4, b5], bigEndian [b6, b7]) # decodeRecords Rest"
| "decodeRecords _ = []"

text \<open>The triple that the record of a token stands for.\<close>

definition tokenTriple :: "HighlightingToken \<Rightarrow> nat \<times> nat \<times> nat" where
  "tokenTriple Token =
     (unat (character (start (R Token))),
      nat ((sint (character (end' (R Token))) - sint (character (start (R Token)))) mod 65536),
      kindOrdinal (Kind Token))"


text \<open>Tokens for examples, from a kind and the four coordinates of a range.\<close>

definition mkToken :: "HighlightingKind \<Rightarrow> int \<Rightarrow> int \<Rightarrow> int \<Rightarrow> int \<Rightarrow> HighlightingToken" where
  "mkToken K L1 C1 L2 C2 =
     \<lparr>Kind = K, R = \<lparr>start = \<lparr>line = word_of_int L1, character = word_of_int C1\<rparr>,
                       end' = \<lparr>line = word_of_int L2, character = word_of_int C2\<rparr>\<rparr>\<rparr>"

text \<open>
  A traversal for examples: it adds a variable at a range where a macro expands, a class
  added twice, and a function.
\<close>

definition exampleTraverse :: "Collector \<Rightarrow> Collector" where
  "exampleTraverse C =
     C\<lparr>TokensC := TokensC C @ [mkToken Variable 5 0 5 3, mkToken Class 1 0 1 1,
                                 mkToken Class 1 0 1 1, mkToken Function 7 2 7 4]\<rparr>"

definition exampleMacros :: "Range list" where
  "exampleMacros = [R (mkToken Macro 5 0 5 3)]"

text \<open>
  Two snapshots for examples: line 3 is the same in both, line 10 differs, and line 12 has
  a token in the old snapshot only.
\<close>

definition exampleNew :: "HighlightingToken list" where
  "exampleNew = [mkToken Class 3 6 3 9, mkToken Variable 10 0 10 1, mkToken Function 10 5 10 6]"

definition exampleOld :: "HighlightingToken list" where
  "exampleOld = [mkToken Class 3 6 3 9, mkToken Variable 10 1 10 2, mkToken Variable 12 0 12 1]"

section \<open>Properties of the classifier\<close>

declare kindForDecl.simps [simp del]

lemma kindForCandidateDeclsLoop_Some:
  "kindForCandidateDeclsLoop (Some K) Decls =
     (if \<forall>D\<in>set Decls. kindForDecl D = Some K then Some K else None)"
proof (induction Decls)
  case Nil
  show ?case by simp
next
  case (Cons D Ds)
  show ?case
  proof (cases "kindForDecl D = Some K")
    case True
    then show ?thesis using Cons.IH by (simp add: Let_def)
  next
    case False
    then show ?thesis by (simp add: Let_def)
  qed
qed

lemma kindForCandidateDecls_Cons:
  "kindForCandidateDecls (D # Ds) =
     (case kindForDecl D of
        None \<Rightarrow> None
      | Some K \<Rightarrow> if \<forall>D'\<in>set Ds. kindForDecl D' = Some K then Some K else None)"
proof (cases "kindForDecl D")
  case None
  then show ?thesis by (simp add: kindForCandidateDecls_def Let_def)
next
  case (Some K)
  then show ?thesis
    by (simp add: kindForCandidateDecls_def Let_def kindForCandidateDeclsLoop_Some)
qed

lemma kindForDecl_Method: "kindForDecl (CXXMethodDecl False) = Some Method"
  by (simp add: kindForDecl.simps)

lemma kindForDecl_Field: "kindForDecl FieldDecl = Some Field"
  by (simp add: kindForDecl.simps)

text \<open>
  C6. For a candidate set that is not empty, \<open>kindForCandidateDecls\<close> returns the kind
  \<open>K\<close> exactly when \<open>kindForDecl\<close> gives \<open>K\<close> for every candidate; it returns no kind
  exactly when some candidate has no kind or two candidates have different kinds.
\<close>

theorem kindForCandidateDecls_unanimous:
  assumes "Decls \<noteq> []"
  shows "(kindForCandidateDecls Decls = Some K \<longleftrightarrow> (\<forall>D\<in>set Decls. kindForDecl D = Some K))
    \<and> (kindForCandidateDecls Decls = None \<longleftrightarrow>
         (\<exists>D\<in>set Decls. kindForDecl D = None)
         \<or> (\<exists>D\<in>set Decls. \<exists>D'\<in>set Decls. kindForDecl D \<noteq> kindForDecl D'))"
proof -
  from assms obtain D0 Ds where Decls: "Decls = D0 # Ds" by (cases Decls) auto
  have D0: "D0 \<in> set Decls" by (simp add: Decls)
  show ?thesis
  proof (cases "kindForDecl D0")
    case None
    then have r: "kindForCandidateDecls Decls = None"
      by (simp add: Decls kindForCandidateDecls_Cons)
    have a: "\<not> (\<forall>D\<in>set Decls. kindForDecl D = Some K)"
    proof
      assume "\<forall>D\<in>set Decls. kindForDecl D = Some K"
      with D0 have "kindForDecl D0 = Some K" by blast
      with None show False by simp
    qed
    have b: "\<exists>D\<in>set Decls. kindForDecl D = None"
      using D0 None by blast
    show ?thesis unfolding r using a b by blast
  next
    case (Some K0)
    show ?thesis
    proof (cases "\<forall>D'\<in>set Ds. kindForDecl D' = Some K0")
      case True
      then have r: "kindForCandidateDecls Decls = Some K0"
        using Some by (simp add: Decls kindForCandidateDecls_Cons)
      have all: "kindForDecl D = Some K0" if "D \<in> set Decls" for D
        using that True Some unfolding Decls by (cases "D = D0") simp_all
      have a: "(\<forall>D\<in>set Decls. kindForDecl D = Some K) \<longleftrightarrow> K0 = K"
      proof
        assume "\<forall>D\<in>set Decls. kindForDecl D = Some K"
        with D0 have "kindForDecl D0 = Some K" by blast
        with Some show "K0 = K" by simp
      next
        assume "K0 = K"
        with all show "\<forall>D\<in>set Decls. kindForDecl D = Some K" by blast
      qed
      have b: "\<not> (\<exists>D\<in>set Decls. kindForDecl D = None)"
      proof
        assume "\<exists>D\<in>set Decls. kindForDecl D = None"
        then obtain D where "D \<in> set Decls" "kindForDecl D = None" by (rule bexE)
        with all [of D] show False by simp
      qed
      have c: "\<not> (\<exists>D\<in>set Decls. \<exists>D'\<in>set Decls. kindForDecl D \<noteq> kindForDecl D')"
      proof
        assume "\<exists>D\<in>set Decls. \<exists>D'\<in>set Decls. kindForDecl D \<noteq> kindForDecl D'"
        then obtain D D' where "D \<in> set Decls" "D' \<in> set Decls" "kindForDecl D \<noteq> kindForDecl D'"
          by blast
        with all [of D] all [of D'] show False by simp
      qed
      have d: "(Some K0 = Some K) = (K0 = K)" "(Some K0 = None) = False" by simp_all
      show ?thesis unfolding r a d using b c by blast
    next
      case False
      then have r: "kindForCandidateDecls Decls = None"
        using Some by (simp add: Decls kindForCandidateDecls_Cons)
      from False obtain D' where D': "D' \<in> set Ds" "kindForDecl D' \<noteq> Some K0" by blast
      have D'in: "D' \<in> set Decls" using D'(1) by (simp add: Decls)
      have ne: "kindForDecl D0 \<noteq> kindForDecl D'" using Some D'(2) by simp
      have c: "\<exists>D\<in>set Decls. \<exists>D'\<in>set Decls. kindForDecl D \<noteq> kindForDecl D'"
        using D0 D'in ne by blast
      have a: "\<not> (\<forall>D\<in>set Decls. kindForDecl D = Some K)"
      proof
        assume h: "\<forall>D\<in>set Decls. kindForDecl D = Some K"
        from h D0 have "kindForDecl D0 = Some K" by blast
        moreover from h D'in have "kindForDecl D' = Some K" by blast
        ultimately show False using ne by simp
      qed
      show ?thesis unfolding r using a c by blast
    qed
  qed
qed

theorem kindForCandidateDecls_unanimous_witness:
  "kindForCandidateDecls [CXXMethodDecl False, CXXMethodDecl False] = Some Method
   \<and> kindForCandidateDecls [CXXMethodDecl False, FieldDecl] = None"
proof -
  have a: "[CXXMethodDecl False, CXXMethodDecl False] \<noteq> []"
    and b: "[CXXMethodDecl False, FieldDecl] \<noteq> []" by simp_all
  have "\<forall>D\<in>set [CXXMethodDecl False, CXXMethodDecl False]. kindForDecl D = Some Method"
    by (simp add: kindForDecl_Method)
  then have 1: "kindForCandidateDecls [CXXMethodDecl False, CXXMethodDecl False] = Some Method"
    using kindForCandidateDecls_unanimous [OF a, of Method] by (elim conjE) (erule iffD2)
  have "\<exists>D\<in>set [CXXMethodDecl False, FieldDecl]. \<exists>D'\<in>set [CXXMethodDecl False, FieldDecl].
          kindForDecl D \<noteq> kindForDecl D'"
    by (rule bexI [of _ "CXXMethodDecl False"], rule bexI [of _ FieldDecl])
       (simp_all add: kindForDecl_Method kindForDecl_Field)
  then have 2: "kindForCandidateDecls [CXXMethodDecl False, FieldDecl] = None"
    using kindForCandidateDecls_unanimous [OF b, of Method] by (elim conjE) (erule iffD2, erule disjI2)
  from 1 2 show ?thesis by (rule conjI)
qed

lemma kindForDecl_Enum: "kindForDecl EnumDecl = Some Enum"
  by (simp add: kindForDecl.simps)

text \<open>
  C8. For a declaration that is a typedef name declaration, directly or behind a
  using-shadow declaration or a template declaration (an alias template), \<open>kindForDecl\<close>
  always returns a kind: the kind of the underlying type when \<open>kindForType\<close> gives one,
  and \<open>Typedef\<close> otherwise.
\<close>

theorem kindForDecl_typedef:
  assumes "isaTypedefNameDecl (unwrapTemplate (unwrapUsingShadow D))"
  shows "kindForDecl D \<noteq> None
    \<and> (\<forall>K. kindForType (getUnderlyingType (unwrapTemplate (unwrapUsingShadow D))) = Some K
           \<longrightarrow> kindForDecl D = Some K)
    \<and> (kindForType (getUnderlyingType (unwrapTemplate (unwrapUsingShadow D))) = None
           \<longrightarrow> kindForDecl D = Some Typedef)"
proof (cases "kindForType (getUnderlyingType (unwrapTemplate (unwrapUsingShadow D)))")
  case None
  with assms have "kindForDecl D = Some Typedef"
    by (subst kindForDecl.simps) (simp add: Let_def)
  with None show ?thesis by simp
next
  case (Some K)
  with assms have "kindForDecl D = Some K"
    by (subst kindForDecl.simps) (simp add: Let_def)
  with Some show ?thesis by simp
qed

theorem kindForDecl_typedef_witness:
  "kindForDecl (TypedefNameDecl (Some (TagType EnumDecl))) = Some Enum
   \<and> kindForDecl (TypedefNameDecl (Some OtherType)) = Some Typedef
   \<and> kindForDecl (UsingShadowDecl (Some (OtherTemplateDecl (Some (TypedefNameDecl None)))))
       = Some Typedef"
proof -
  have a: "isaTypedefNameDecl (unwrapTemplate (unwrapUsingShadow
             (TypedefNameDecl (Some (TagType EnumDecl)))))"
    and b: "isaTypedefNameDecl (unwrapTemplate (unwrapUsingShadow
             (TypedefNameDecl (Some OtherType))))"
    and c: "isaTypedefNameDecl (unwrapTemplate (unwrapUsingShadow
             (UsingShadowDecl (Some (OtherTemplateDecl (Some (TypedefNameDecl None)))))))"
    by simp_all
  have 1: "kindForType (getUnderlyingType (unwrapTemplate (unwrapUsingShadow
             (TypedefNameDecl (Some (TagType EnumDecl)))))) = Some Enum"
    by (simp add: kindForDecl_Enum)
  have 2: "kindForType (getUnderlyingType (unwrapTemplate (unwrapUsingShadow
             (TypedefNameDecl (Some OtherType))))) = None"
    by simp
  have 3: "kindForType (getUnderlyingType (unwrapTemplate (unwrapUsingShadow
             (UsingShadowDecl (Some (OtherTemplateDecl (Some (TypedefNameDecl None)))))))) = None"
    by simp
  from kindForDecl_typedef [OF a] 1
  have r1: "kindForDecl (TypedefNameDecl (Some (TagType EnumDecl))) = Some Enum" by blast
  from kindForDecl_typedef [OF b] 2
  have r2: "kindForDecl (TypedefNameDecl (Some OtherType)) = Some Typedef" by blast
  from kindForDecl_typedef [OF c] 3
  have r3: "kindForDecl (UsingShadowDecl (Some (OtherTemplateDecl (Some (TypedefNameDecl None)))))
      = Some Typedef" by blast
  from r1 r2 r3 show ?thesis by (intro conjI)
qed

section \<open>Properties of the walker\<close>

text \<open>
  C7. When the location comes from a macro expansion that is not the expansion of a macro
  argument, or when the location, replaced by its spelling location if it is a macro
  location, is outside the main file, \<open>addToken\<close> returns the collector as it was: no
  token is added and nothing is logged. The same holds for the overload that takes a
  declaration.
\<close>

theorem addToken_filtered:
  assumes "(isMacroID AST Loc \<and> \<not> isMacroArgExpansion AST Loc)
     \<or> \<not> isInsideMainFile AST (if isMacroID AST Loc then getSpellingLoc AST Loc else Loc)"
  shows "addToken AST Loc K C = C \<and> addTokenDecl AST Loc D C = C"
  using assms by (auto simp: addToken_def addTokenDecl_def Let_def split: option.splits)

theorem addToken_filtered_witness:
  "addToken exampleAST 150 Variable \<lparr>TokensC = [], Elog = []\<rparr> = \<lparr>TokensC = [], Elog = []\<rparr>
   \<and> addToken exampleAST 70 Variable \<lparr>TokensC = [], Elog = []\<rparr> = \<lparr>TokensC = [], Elog = []\<rparr>"
proof -
  have a: "(isMacroID exampleAST 150 \<and> \<not> isMacroArgExpansion exampleAST 150)
     \<or> \<not> isInsideMainFile exampleAST
             (if isMacroID exampleAST 150 then getSpellingLoc exampleAST 150 else 150)"
    by (simp add: exampleAST_def)
  have b: "(isMacroID exampleAST 70 \<and> \<not> isMacroArgExpansion exampleAST 70)
     \<or> \<not> isInsideMainFile exampleAST
             (if isMacroID exampleAST 70 then getSpellingLoc exampleAST 70 else 70)"
    by (simp add: exampleAST_def)
  show ?thesis
    using addToken_filtered [OF a, of Variable "\<lparr>TokensC = [], Elog = []\<rparr>" OtherDecl]
      addToken_filtered [OF b, of Variable "\<lparr>TokensC = [], Elog = []\<rparr>" OtherDecl]
    by (intro conjI) (erule conjunct1)+
qed

text \<open>
  C9. For the empty candidate set \<open>kindForCandidateDecls\<close> returns no kind. So
  \<open>VisitOverloadExpr\<close>, on an expression without candidates, passes \<open>DependentName\<close> to
  \<open>addToken\<close> (when the name can be highlighted), and \<open>VisitUsingDecl\<close>, on a using
  declaration without shadows, leaves the collector as it was.
\<close>

theorem empty_candidates:
  "kindForCandidateDecls [] = None
   \<and> VisitOverloadExpr AST (E\<lparr>decls := []\<rparr>) C =
       (True, if canHighlightName (getName E)
              then addToken AST (getNameLoc E) DependentName C else C)
   \<and> VisitUsingDecl AST (UD\<lparr>shadows := []\<rparr>) C = (True, C)"
  by (simp add: kindForCandidateDecls_def VisitOverloadExpr_def VisitUsingDecl_def)

theorem empty_candidates_witness:
  "VisitOverloadExpr exampleAST
     \<lparr>getName = Identifier (Some ''f''), getNameLoc = 7, decls = []\<rparr>
     \<lparr>TokensC = [], Elog = []\<rparr>
   = (True, \<lparr>TokensC = [\<lparr>Kind = DependentName, R = exampleRange\<rparr>], Elog = []\<rparr>)
   \<and> VisitUsingDecl exampleAST \<lparr>getLocation = 7, shadows = []\<rparr> \<lparr>TokensC = [], Elog = []\<rparr>
   = (True, \<lparr>TokensC = [], Elog = []\<rparr>)"
proof -
  have t: "addToken exampleAST 7 DependentName \<lparr>TokensC = [], Elog = []\<rparr>
      = \<lparr>TokensC = [\<lparr>Kind = DependentName, R = exampleRange\<rparr>], Elog = []\<rparr>"
    by (simp add: addToken_def exampleAST_def)
  have e: "\<lparr>getName = Identifier (Some ''f''), getNameLoc = 7::nat, decls = []\<rparr>\<lparr>decls := []\<rparr>
      = \<lparr>getName = Identifier (Some ''f''), getNameLoc = 7, decls = []\<rparr>"
    and u: "\<lparr>getLocation = 7::nat, shadows = []\<rparr>\<lparr>shadows := []\<rparr> = \<lparr>getLocation = 7, shadows = []\<rparr>"
    by simp_all
  have n: "canHighlightName (getName \<lparr>getName = Identifier (Some ''f''), getNameLoc = 7::nat, decls = []\<rparr>)"
    and l: "getNameLoc \<lparr>getName = Identifier (Some ''f''), getNameLoc = 7::nat, decls = []\<rparr> = 7"
    by simp_all
  show ?thesis
    using empty_candidates [of exampleAST
      "\<lparr>getName = Identifier (Some ''f''), getNameLoc = 7, decls = []\<rparr>"
      "\<lparr>TokensC = [], Elog = []\<rparr>" "\<lparr>getLocation = 7, shadows = []\<rparr>"]
    unfolding e u l t if_P [OF n] by blast
qed


section \<open>Properties of the diff engine\<close>

text \<open>
  \<open>std::is_sorted\<close> with \<open>operator<\<close>: no token is less than a token before it.
\<close>

lemma is_sorted_tokenLess:
  "is_sorted Ts \<longleftrightarrow> sorted_wrt (\<lambda>A B. \<not> tokenLess B A) Ts"
  by (simp add: is_sorted_def tokenLess_def sorted_map not_less)

lemma tokenKey_mkToken:
  "tokenKey (mkToken K L1 C1 L2 C2) =
     (((sint (word_of_int L1 :: 32 word), sint (word_of_int C1 :: 32 word)),
       (sint (word_of_int L2 :: 32 word), sint (word_of_int C2 :: 32 word))), kindOrdinal K)"
  by (simp add: mkToken_def tokenKey_def rangeKey_def positionKey_def)

lemma diffLoop_same:
  "NewRest = OldRest \<Longrightarrow> diffLoop LineNumber NewRest OldRest DiffedLines = DiffedLines"
proof (induction LineNumber NewRest OldRest DiffedLines rule: diffLoop.induct)
  case (1 LineNumber NewRest OldRest DiffedLines)
  show ?case
  proof (cases "NewRest \<noteq> [] \<or> OldRest \<noteq> []")
    case True
    have "diffLoop LineNumber NewRest OldRest DiffedLines =
        diffLoop (NextLineNumber (drop (length (takeLine NewRest LineNumber)) NewRest)
                                 (drop (length (takeLine OldRest LineNumber)) OldRest))
          (drop (length (takeLine NewRest LineNumber)) NewRest)
          (drop (length (takeLine OldRest LineNumber)) OldRest) DiffedLines"
      using True "1.prems" by (subst diffLoop.simps) (simp add: Let_def)
    also have "\<dots> = DiffedLines"
      using "1.IH" [OF True refl refl refl refl refl] "1.prems" by simp
    finally show ?thesis .
  next
    case False
    then show ?thesis by (subst diffLoop.simps) simp
  qed
qed

text \<open>
  C4. For a sorted token sequence \<open>S\<close>, \<open>diffHighlightings S S\<close> returns the empty list
  of changed lines.
\<close>

theorem diffHighlightings_same:
  assumes "is_sorted S"
  shows "diffHighlightings S S = Some []"
  using assms by (simp add: diffHighlightings_def diffLoop_same)

theorem diffHighlightings_same_witness:
  "diffHighlightings [mkToken Class 3 6 3 9, mkToken Variable 10 4 10 5]
                     [mkToken Class 3 6 3 9, mkToken Variable 10 4 10 5] = Some []"
proof -
  have "is_sorted [mkToken Class 3 6 3 9, mkToken Variable 10 4 10 5]"
    by (simp add: is_sorted_def tokenKey_mkToken)
  then show ?thesis by (rule diffHighlightings_same)
qed

section \<open>Properties of the wire encoder\<close>

lemma bytes_of_nat32:
  fixes u :: nat
  assumes "u < 2 ^ 32"
  shows "16777216 * (u div 16777216 mod 256) + 65536 * (u div 65536 mod 256)
           + 256 * (u div 256 mod 256) + u mod 256 = u"
proof -
  define x1 where "x1 = u div 256"
  define x2 where "x2 = x1 div 256"
  define x3 where "x3 = x2 div 256"
  define m0 where "m0 = u mod 256"
  define m1 where "m1 = x1 mod 256"
  define m2 where "m2 = x2 mod 256"
  have e1: "u div 256 = x1" by (simp add: x1_def)
  have e2: "u div 65536 = x2" by (simp add: x2_def x1_def div_mult2_eq)
  have e3: "u div 16777216 = x3" by (simp add: x3_def x2_def x1_def div_mult2_eq)
  have "x3 < 256" using assms unfolding e3 [symmetric] by (simp add: less_mult_imp_div_less)
  then have m3: "x3 mod 256 = x3" by simp
  have d0: "256 * x1 + m0 = u" unfolding x1_def m0_def by simp
  have d1: "256 * x2 + m1 = x1" unfolding x2_def m1_def by simp
  have d2: "256 * x3 + m2 = x2" unfolding x3_def m2_def by simp
  have "16777216 * x3 + 65536 * m2 + 256 * m1 + m0 = u"
    using d0 d1 d2 by linarith
  then show ?thesis unfolding e1 e2 e3 m3 m0_def m1_def m2_def .
qed

lemma bytes_of_nat16:
  fixes u :: nat
  shows "256 * (u div 256 mod 256) + u mod 256 = u mod 65536"
  using mod_mult2_eq [of u 256 256] by simp

lemma bigEndian4:
  "bigEndian [b3, b2, b1, b0] = 16777216 * unat b3 + 65536 * unat b2 + 256 * unat b1 + unat b0"
  by (simp add: bigEndian_def)

lemma bigEndian2: "bigEndian [b1, b0] = 256 * unat b1 + unat b0"
  by (simp add: bigEndian_def)

lemma be32:
  "bigEndian [ucast (drop_bit 24 I), ucast (drop_bit 16 I), ucast (drop_bit 8 I), ucast I]
     = unat (I :: 32 word)"
proof -
  have u: "unat I < 2 ^ 32" using unsigned_less [of I] by simp
  have b: "unat (ucast (drop_bit n I) :: 8 word) = (unat I div 2 ^ n) mod 256" for n
    by (simp only: unsigned_ucast_eq unat_drop_bit_eq) (simp add: drop_bit_eq_div take_bit_eq_mod)
  have b3: "unat (ucast (drop_bit 24 I) :: 8 word) = unat I div 16777216 mod 256"
    and b2: "unat (ucast (drop_bit 16 I) :: 8 word) = unat I div 65536 mod 256"
    and b1: "unat (ucast (drop_bit 8 I) :: 8 word) = unat I div 256 mod 256"
    using b [of 24] b [of 16] b [of 8] by simp_all
  have b0: "unat (ucast I :: 8 word) = unat I mod 256"
    by (simp add: unsigned_ucast_eq take_bit_eq_mod)
  show ?thesis unfolding bigEndian4 b3 b2 b1 b0 by (rule bytes_of_nat32 [OF u])
qed

lemma be16:
  "bigEndian [ucast (drop_bit 8 I), ucast I] = unat (I :: 16 word)"
proof -
  have u: "unat I < 65536" using unsigned_less [of I] by simp
  have b1: "unat (ucast (drop_bit 8 I) :: 8 word) = unat I div 256 mod 256"
    by (simp only: unsigned_ucast_eq unat_drop_bit_eq) (simp add: drop_bit_eq_div take_bit_eq_mod)
  have b0: "unat (ucast I :: 8 word) = unat I mod 256"
    by (simp add: unsigned_ucast_eq take_bit_eq_mod)
  have "unat I mod 65536 = unat I" using u by simp
  then show ?thesis unfolding bigEndian2 b1 b0 bytes_of_nat16 .
qed

lemma unat_length16:
  "unat (ucast (E - S :: 32 word) :: 16 word) = nat ((sint E - sint S) mod 65536)"
proof -
  have 1: "E - S = word_of_int (sint E - sint S)" by simp
  have 2: "(ucast (word_of_int k :: 32 word) :: 16 word) = word_of_int k" for k
    by (rule ucast_down_wi) (simp add: is_down)
  have 3: "uint (word_of_int k :: 16 word) = k mod 65536" for k
    by (simp add: uint_word_of_int)
  have "uint (ucast (E - S) :: 16 word) = (sint E - sint S) mod 65536"
    by (subst 1, subst 2, rule 3)
  then show ?thesis by (simp only: unat_eq_nat_uint)
qed

lemma kindOrdinal_less: "kindOrdinal K < 18"
  by (cases K) simp_all

lemma unat_kindOrdinal: "unat (word_of_nat (kindOrdinal K) :: 16 word) = kindOrdinal K"
  using kindOrdinal_less [of K] by (simp add: unat_of_nat)


lemma writeLineTokens_append:
  "writeLineTokens Ts OS = OS @ writeLineTokens Ts []"
proof (induction Ts arbitrary: OS)
  case Nil
  show ?case by simp
next
  case (Cons T Ts)
  show ?case
    by (subst (1 2) writeLineTokens.simps, unfold Let_def, subst Cons.IH, subst (2) Cons.IH)
       (simp add: write32be_def write16be_def)
qed

lemma writeLineTokens_Cons:
  "writeLineTokens (T # Ts) [] =
     [ucast (drop_bit 24 (character (start (R T)))), ucast (drop_bit 16 (character (start (R T)))),
      ucast (drop_bit 8 (character (start (R T)))), ucast (character (start (R T))),
      ucast (drop_bit 8 (ucast (character (end' (R T)) - character (start (R T))) :: 16 word)),
      ucast (ucast (character (end' (R T)) - character (start (R T))) :: 16 word),
      ucast (drop_bit 8 (word_of_nat (kindOrdinal (Kind T)) :: 16 word)),
      ucast (word_of_nat (kindOrdinal (Kind T)) :: 16 word)]
     @ writeLineTokens Ts []"
  by (subst writeLineTokens.simps, unfold Let_def, subst writeLineTokens_append)
     (simp add: write32be_def write16be_def)

lemma length_writeLineTokens: "length (writeLineTokens Ts []) = 8 * length Ts"
proof (induction Ts)
  case Nil
  show ?case by simp
next
  case (Cons T Ts)
  show ?case unfolding writeLineTokens_Cons using Cons.IH by simp
qed

lemma decodeRecords_writeLineTokens:
  "decodeRecords (writeLineTokens Ts []) = map tokenTriple Ts"
proof (induction Ts)
  case Nil
  show ?case by simp
next
  case (Cons T Ts)
  show ?case
    unfolding writeLineTokens_Cons append_Cons append_Nil decodeRecords.simps be32 be16
      unat_length16 unat_kindOrdinal Cons.IH
    by (simp add: tokenTriple_def)
qed



lemma tokenTriple_mkToken:
  "tokenTriple (mkToken K L1 C1 L2 C2) =
     (unat (word_of_int C1 :: 32 word),
      nat ((sint (word_of_int C2 :: 32 word) - sint (word_of_int C1 :: 32 word)) mod 65536),
      kindOrdinal K)"
  by (simp add: mkToken_def tokenTriple_def)



section \<open>Properties of the token collector\<close>

lemma kindOrdinal_inj: "kindOrdinal K = kindOrdinal K' \<Longrightarrow> K = K'"
  by (cases K; cases K'; simp)

lemma sint_eq_iff: "sint (a :: 32 word) = sint b \<longleftrightarrow> a = b"
proof
  assume "sint a = sint b"
  then show "a = b" by (rule signed_word_eqI)
next
  assume "a = b"
  then show "sint a = sint b" by simp
qed

lemma positionKey_inj: "positionKey P = positionKey Q \<Longrightarrow> P = Q"
  by (cases P, cases Q) (simp add: positionKey_def sint_eq_iff)

lemma rangeKey_inj: "rangeKey A = rangeKey B \<Longrightarrow> A = B"
  by (cases A, cases B) (simp add: rangeKey_def positionKey_inj)

lemma rangeKey_eq_iff: "rangeKey A = rangeKey B \<longleftrightarrow> A = B"
  using rangeKey_inj by blast

lemma tokenKey_inj: "tokenKey S = tokenKey T \<Longrightarrow> S = T"
  by (cases S, cases T) (simp add: tokenKey_def rangeKey_inj kindOrdinal_inj)

lemma inj_tokenKey: "inj tokenKey"
  by (rule injI) (rule tokenKey_inj)

lemma sorted_remdups_adj_distinct:
  fixes xs :: "'a::linorder list"
  shows "sorted xs \<Longrightarrow> distinct (remdups_adj xs)"
proof (induction xs rule: remdups_adj.induct)
  case 1
  show ?case by simp
next
  case (2 x)
  show ?case by simp
next
  case (3 x y xs)
  show ?case
  proof (cases "x = y")
    case True
    with 3 show ?thesis by simp
  next
    case False
    from "3.prems" have s: "sorted (y # xs)" and xy: "x \<le> y" and all: "\<forall>z\<in>set xs. y \<le> z"
      by simp_all
    from False xy have lt: "x < y" by simp
    have "x \<notin> set (y # xs)"
    proof
      assume "x \<in> set (y # xs)"
      with False have "x \<in> set xs" by simp
      with all have "y \<le> x" by blast
      with lt show False by simp
    qed
    then have "x \<notin> set (remdups_adj (y # xs))" unfolding remdups_adj_set .
    moreover have "distinct (remdups_adj (y # xs))" using "3.IH"(2) [OF False s] .
    ultimately show ?thesis using False by simp
  qed
qed

lemma sorted_takeWhile_eq_filter:
  fixes f :: "'a \<Rightarrow> 'b::linorder"
  assumes "sorted (map f xs)" and "\<forall>y\<in>set xs. k \<le> f y"
  shows "takeWhile (\<lambda>y. f y = k) xs = filter (\<lambda>y. f y = k) xs"
  using assms
proof (induction xs)
  case Nil
  show ?case by simp
next
  case (Cons x xs)
  show ?case
  proof (cases "f x = k")
    case True
    with Cons show ?thesis by simp
  next
    case False
    with Cons.prems(2) have lt: "k < f x" by (simp add: order.strict_iff_order)
    have "f y \<noteq> k" if "y \<in> set xs" for y
    proof -
      from Cons.prems(1) that have "f x \<le> f y" by simp
      with lt show ?thesis by simp
    qed
    then have "filter (\<lambda>y. f y = k) xs = []" by (simp add: filter_empty_conv)
    with False show ?thesis by simp
  qed
qed

lemma sorted_dropWhile_neq:
  fixes f :: "'a \<Rightarrow> 'b::linorder"
  assumes "sorted (map f xs)" and "\<forall>y\<in>set xs. k \<le> f y"
  shows "\<forall>y\<in>set (dropWhile (\<lambda>y. f y = k) xs). f y \<noteq> k"
  using assms
proof (induction xs)
  case Nil
  show ?case by simp
next
  case (Cons x xs)
  from Cons.prems have s: "sorted (map f xs)" and a: "\<forall>y\<in>set xs. k \<le> f y"
    by simp_all
  show ?case
  proof (cases "f x = k")
    case True
    then have "dropWhile (\<lambda>y. f y = k) (x # xs) = dropWhile (\<lambda>y. f y = k) xs" by simp
    then show ?thesis using Cons.IH [OF s a] by (simp only:)
  next
    case False
    with Cons.prems(2) have lt: "k < f x" by (simp add: order.strict_iff_order)
    have n: "f y \<noteq> k" if "y \<in> set (x # xs)" for y
    proof -
      from Cons.prems(1) that have "f x \<le> f y" by auto
      with lt show ?thesis by simp
    qed
    from False have "dropWhile (\<lambda>y. f y = k) (x # xs) = x # xs" by simp
    then show ?thesis using n by (simp only:) blast
  qed
qed

lemma nonConflictingLoop_eq:
  assumes "sorted (map (\<lambda>T. rangeKey (R T)) TokRef)"
  shows "nonConflictingLoop TokRef NonConflicting =
           NonConflicting @ filter (\<lambda>T. length (filter (\<lambda>T'. R T' = R T) TokRef) = 1) TokRef"
  using assms
proof (induction TokRef NonConflicting rule: nonConflictingLoop.induct)
  case (1 NonConflicting)
  show ?case by simp
next
  case (2 Front Rest NonConflicting)
  define Cf where "Cf = takeWhile (\<lambda>T. R T = R Front) (Front # Rest)"
  define D where "D = drop (length Cf) (Front # Rest)"
  have P_key: "(\<lambda>T. R T = R Front) = (\<lambda>T. rangeKey (R T) = rangeKey (R Front))"
    by (simp add: rangeKey_eq_iff)
  have lower: "\<forall>y\<in>set (Front # Rest). rangeKey (R Front) \<le> rangeKey (R y)"
    using "2.prems" by auto
  have Cf_filter: "Cf = filter (\<lambda>T. R T = R Front) (Front # Rest)"
    unfolding Cf_def P_key
    by (rule sorted_takeWhile_eq_filter [where f = "\<lambda>T. rangeKey (R T)", OF "2.prems" lower])
  have D_dw: "D = dropWhile (\<lambda>T. R T = R Front) (Front # Rest)"
    unfolding D_def Cf_def by (rule dropWhile_eq_drop [symmetric])
  have D_neq: "R y \<noteq> R Front" if "y \<in> set D" for y
  proof -
    have "\<forall>y\<in>set D. rangeKey (R y) \<noteq> rangeKey (R Front)"
      unfolding D_dw P_key
      by (rule sorted_dropWhile_neq [where f = "\<lambda>T. rangeKey (R T)", OF "2.prems" lower])
    with that have "rangeKey (R y) \<noteq> rangeKey (R Front)" by blast
    then show ?thesis by (simp only: rangeKey_eq_iff not_False_eq_True)
  qed
  have Cf_eq: "R y = R Front" if "y \<in> set Cf" for y
    using that unfolding Cf_filter set_filter by blast
  have split: "Front # Rest = Cf @ D"
    unfolding D_dw Cf_def by (rule takeWhile_dropWhile_id [symmetric])
  have sortedD: "sorted (map (\<lambda>T. rangeKey (R T)) D)"
    unfolding D_def drop_map [symmetric] using "2.prems" by (rule sorted_wrt_drop)
  have FrontCf: "Cf = Front # tl Cf" unfolding Cf_def by simp
  have step: "nonConflictingLoop (Front # Rest) NonConflicting =
      nonConflictingLoop D (if length Cf = 1 then NonConflicting @ [Front] else NonConflicting)"
    unfolding D_def Cf_def by (simp add: Let_def)
  have IH: "nonConflictingLoop D (if length Cf = 1 then NonConflicting @ [Front] else NonConflicting) =
      (if length Cf = 1 then NonConflicting @ [Front] else NonConflicting)
        @ filter (\<lambda>T. length (filter (\<lambda>T'. R T' = R T) D) = 1) D"
    using "2.IH" [OF Cf_def] sortedD unfolding D_def .
  have cntC: "length (filter (\<lambda>T'. R T' = R T) (Cf @ D)) = length Cf" if "T \<in> set Cf" for T
  proof -
    have "filter (\<lambda>T'. R T' = R T) Cf = Cf"
      using Cf_eq that by (simp add: filter_id_conv)
    moreover have "filter (\<lambda>T'. R T' = R T) D = []"
      using D_neq Cf_eq [OF that] by (simp add: filter_empty_conv)
    ultimately show ?thesis by simp
  qed
  have cntD: "length (filter (\<lambda>T'. R T' = R T) (Cf @ D)) = length (filter (\<lambda>T'. R T' = R T) D)"
    if "T \<in> set D" for T
  proof -
    have "filter (\<lambda>T'. R T' = R T) Cf = []"
      using D_neq [OF that] Cf_eq by (simp add: filter_empty_conv)
    then show ?thesis by simp
  qed
  have fC: "filter (\<lambda>T. length (filter (\<lambda>T'. R T' = R T) (Cf @ D)) = 1) Cf
      = (if length Cf = 1 then [Front] else [])"
  proof (cases "length Cf = 1")
    case True
    then have "Cf = [Front]" using FrontCf by (cases Cf) simp_all
    moreover have "filter (\<lambda>T. length (filter (\<lambda>T'. R T' = R T) (Cf @ D)) = 1) Cf = Cf"
      using cntC True by (simp add: filter_id_conv)
    ultimately show ?thesis using True by simp
  next
    case False
    then have "filter (\<lambda>T. length (filter (\<lambda>T'. R T' = R T) (Cf @ D)) = 1) Cf = []"
      using cntC by (simp add: filter_empty_conv)
    then show ?thesis using False by simp
  qed
  have fD: "filter (\<lambda>T. length (filter (\<lambda>T'. R T' = R T) (Cf @ D)) = 1) D
      = filter (\<lambda>T. length (filter (\<lambda>T'. R T' = R T) D) = 1) D"
    by (rule filter_cong [OF refl]) (simp only: cntD)
  have "filter (\<lambda>T. length (filter (\<lambda>T'. R T' = R T) (Front # Rest)) = 1) (Front # Rest)
      = filter (\<lambda>T. length (filter (\<lambda>T'. R T' = R T) (Cf @ D)) = 1) (Cf @ D)"
    by (simp only: split)
  also have "\<dots> = filter (\<lambda>T. length (filter (\<lambda>T'. R T' = R T) (Cf @ D)) = 1) Cf
      @ filter (\<lambda>T. length (filter (\<lambda>T'. R T' = R T) (Cf @ D)) = 1) D"
    by (rule filter_append)
  also have "\<dots> = (if length Cf = 1 then [Front] else [])
        @ filter (\<lambda>T. length (filter (\<lambda>T'. R T' = R T) D) = 1) D"
    by (simp only: fC fD)
  finally show ?case unfolding step IH by simp
qed

lemma sorted_rangeKey:
  "sorted (map tokenKey Ts) \<Longrightarrow> sorted (map (\<lambda>T. rangeKey (R T)) Ts)"
proof (induction Ts)
  case Nil
  show ?case by simp
next
  case (Cons T Ts)
  from Cons.prems have s: "sorted (map tokenKey Ts)"
    and a: "\<forall>U\<in>set Ts. tokenKey T \<le> tokenKey U" by simp_all
  have "rangeKey (R T) \<le> rangeKey (R U)" if "U \<in> set Ts" for U
  proof -
    from a that have "tokenKey T \<le> tokenKey U" by blast
    then show ?thesis unfolding tokenKey_def less_eq_prod_simp by (rule disjE) simp_all
  qed
  with Cons.IH [OF s] show ?case by simp
qed

lemma distinct_filter_length_one:
  assumes "distinct xs" and "x \<in> set xs" and "P x"
  shows "length (filter P xs) = 1 \<longleftrightarrow> (\<forall>y\<in>set xs. P y \<longrightarrow> y = x)"
proof
  assume "length (filter P xs) = 1"
  then obtain z where z: "filter P xs = [z]" by (cases "filter P xs") simp_all
  have m: "y \<in> set (filter P xs) \<Longrightarrow> y = z" for y unfolding z by simp
  have "x \<in> set (filter P xs)" using assms(2,3) by simp
  then have "x = z" by (rule m)
  show "\<forall>y\<in>set xs. P y \<longrightarrow> y = x"
  proof (intro ballI impI)
    fix y assume "y \<in> set xs" "P y"
    then have "y \<in> set (filter P xs)" by simp
    then have "y = z" by (rule m)
    with \<open>x = z\<close> show "y = x" by simp
  qed
next
  assume a: "\<forall>y\<in>set xs. P y \<longrightarrow> y = x"
  have "set (filter P xs) = {x}"
  proof (rule set_eqI)
    fix y
    show "y \<in> set (filter P xs) \<longleftrightarrow> y \<in> {x}"
    proof
      assume "y \<in> set (filter P xs)"
      then have y: "y \<in> set xs" "P y" by simp_all
      from a y(1) have "P y \<longrightarrow> y = x" by (rule bspec)
      with y(2) have "y = x" by (rule rev_mp)
      then show "y \<in> {x}" by simp
    next
      assume "y \<in> {x}"
      then have "y = x" by simp
      with assms(2,3) show "y \<in> set (filter P xs)" by simp
    qed
  qed
  moreover have "distinct (filter P xs)" using assms(1) by (rule distinct_filter)
  ultimately have "card {x} = length (filter P xs)" using distinct_card [of "filter P xs"] by simp
  then show "length (filter P xs) = 1" by simp
qed

lemma collectTokens_set:
  fixes TraverseAST Macros C
  defines "Raw \<equiv> TokensC (TraverseAST (C\<lparr>TokensC := []\<rparr>)) @ map (\<lambda>M. \<lparr>Kind = Macro, R = M\<rparr>) Macros"
  shows "set (collectTokens TraverseAST Macros C) =
           {T \<in> set Raw. \<forall>T'\<in>set Raw. R T' = R T \<longrightarrow> T' = T}"
    and "distinct (collectTokens TraverseAST Macros C)"
    and "is_sorted (collectTokens TraverseAST Macros C)"
proof -
  define ys where "ys = remdups_adj (sort_key tokenKey Raw)"
  have set_ys: "set ys = set Raw" unfolding ys_def by (simp only: remdups_adj_set set_sort)
  have "map tokenKey ys = remdups_adj (map tokenKey (sort_key tokenKey Raw))"
    unfolding ys_def by (rule remdups_adj_map_injective [OF inj_tokenKey, symmetric])
  moreover have s0: "sorted (map tokenKey (sort_key tokenKey Raw))" by (rule sorted_sort_key)
  ultimately have dk: "distinct (map tokenKey ys)" and sk: "sorted (map tokenKey ys)"
    by (simp_all only: sorted_remdups_adj_distinct sorted_remdups_adj)
  from dk have d: "distinct ys" by (simp only: distinct_map)
  have out: "collectTokens TraverseAST Macros C =
      filter (\<lambda>T. length (filter (\<lambda>T'. R T' = R T) ys) = 1) ys"
    unfolding collectTokens_def Let_def Raw_def [symmetric] ys_def [symmetric]
    using nonConflictingLoop_eq [OF sorted_rangeKey [OF sk], of "[]"] by simp
  have iff: "length (filter (\<lambda>T'. R T' = R T) ys) = 1 \<longleftrightarrow> (\<forall>T'\<in>set ys. R T' = R T \<longrightarrow> T' = T)"
    if "T \<in> set ys" for T
    by (rule distinct_filter_length_one [OF d that refl])
  show "set (collectTokens TraverseAST Macros C) =
           {T \<in> set Raw. \<forall>T'\<in>set Raw. R T' = R T \<longrightarrow> T' = T}"
    unfolding out set_filter set_ys [symmetric] using iff by blast
  show "distinct (collectTokens TraverseAST Macros C)"
    unfolding out using d by (rule distinct_filter)
  show "is_sorted (collectTokens TraverseAST Macros C)"
    unfolding out is_sorted_def using sk by (rule sorted_filter)
qed

lemma mkToken_simps:
  "Kind (mkToken K L1 C1 L2 C2) = K"
  "R (mkToken K L1 C1 L2 C2) = \<lparr>start = \<lparr>line = word_of_int L1, character = word_of_int C1\<rparr>,
                                end' = \<lparr>line = word_of_int L2, character = word_of_int C2\<rparr>\<rparr>"
  by (simp_all add: mkToken_def)

text \<open>
  C1. Let \<open>Raw\<close> be the tokens added by the traversal followed by the macro ranges as
  \<open>Macro\<close> tokens, and \<open>Out\<close> the result of \<open>collectTokens\<close>. No two tokens of \<open>Out\<close>
  have the same range, \<open>Out\<close> is sorted, and each of its tokens is in \<open>Raw\<close>. When two
  different tokens of \<open>Raw\<close> have the same range, no token of \<open>Out\<close> has this range. A
  token of \<open>Raw\<close> whose range no other token of \<open>Raw\<close> has is in \<open>Out\<close>.
\<close>

theorem collectTokens_conflict_free:
  "let Raw = TokensC (TraverseAST (C\<lparr>TokensC := []\<rparr>)) @ map (\<lambda>M. \<lparr>Kind = Macro, R = M\<rparr>) Macros;
       Out = collectTokens TraverseAST Macros C
   in distinct (map R Out)
      \<and> is_sorted Out
      \<and> set Out \<subseteq> set Raw
      \<and> (\<forall>T\<in>set Raw. \<forall>T'\<in>set Raw. R T' = R T \<and> T' \<noteq> T \<longrightarrow> (\<forall>U\<in>set Out. R U \<noteq> R T))
      \<and> (\<forall>T\<in>set Raw. (\<forall>T'\<in>set Raw. R T' = R T \<longrightarrow> T' = T) \<longrightarrow> T \<in> set Out)"
proof -
  define Raw where "Raw = TokensC (TraverseAST (C\<lparr>TokensC := []\<rparr>)) @ map (\<lambda>M. \<lparr>Kind = Macro, R = M\<rparr>) Macros"
  define Out where "Out = collectTokens TraverseAST Macros C"
  have S: "set Out = {T \<in> set Raw. \<forall>T'\<in>set Raw. R T' = R T \<longrightarrow> T' = T}"
    unfolding Out_def Raw_def by (rule collectTokens_set(1))
  have d: "distinct Out" unfolding Out_def by (rule collectTokens_set(2))
  have s: "is_sorted Out" unfolding Out_def by (rule collectTokens_set(3))
  have mem: "T \<in> set Raw" and uniq: "\<And>T'. T' \<in> set Raw \<Longrightarrow> R T' = R T \<Longrightarrow> T' = T"
    if "T \<in> set Out" for T
    using that unfolding S by simp_all
  have "inj_on R (set Out)"
  proof (rule inj_onI)
    fix T U assume "T \<in> set Out" "U \<in> set Out" "R T = R U"
    from uniq [OF \<open>U \<in> set Out\<close> mem [OF \<open>T \<in> set Out\<close>] \<open>R T = R U\<close>] show "T = U" .
  qed
  with d have 1: "distinct (map R Out)" by (simp only: distinct_map)
  have 2: "set Out \<subseteq> set Raw" using mem by blast
  have 3: "\<forall>T\<in>set Raw. \<forall>T'\<in>set Raw. R T' = R T \<and> T' \<noteq> T \<longrightarrow> (\<forall>U\<in>set Out. R U \<noteq> R T)"
  proof (intro ballI impI notI)
    fix T T' U
    assume T: "T \<in> set Raw" and T': "T' \<in> set Raw" and c: "R T' = R T \<and> T' \<noteq> T"
      and U: "U \<in> set Out" and e: "R U = R T"
    from uniq [OF U T] e have "T = U" by simp
    moreover from uniq [OF U T'] e c have "T' = U" by simp
    ultimately show False using c by simp
  qed
  have 4: "\<forall>T\<in>set Raw. (\<forall>T'\<in>set Raw. R T' = R T \<longrightarrow> T' = T) \<longrightarrow> T \<in> set Out"
    unfolding S by simp
  from 1 s 2 3 4 show ?thesis unfolding Let_def Raw_def Out_def by (intro conjI)
qed

theorem collectTokens_conflict_free_witness:
  "mkToken Class 1 0 1 1 \<in> set (collectTokens exampleTraverse exampleMacros \<lparr>TokensC = [], Elog = []\<rparr>)
   \<and> mkToken Variable 5 0 5 3 \<notin> set (collectTokens exampleTraverse exampleMacros \<lparr>TokensC = [], Elog = []\<rparr>)"
proof -
  define Raw where "Raw = [mkToken Variable 5 0 5 3, mkToken Class 1 0 1 1,
     mkToken Class 1 0 1 1, mkToken Function 7 2 7 4, \<lparr>Kind = Macro, R = R (mkToken Macro 5 0 5 3)\<rparr>]"
  define Out where "Out = collectTokens exampleTraverse exampleMacros \<lparr>TokensC = [], Elog = []\<rparr>"
  have Raw: "TokensC (exampleTraverse (\<lparr>TokensC = [], Elog = []\<rparr>\<lparr>TokensC := []\<rparr>))
      @ map (\<lambda>M. \<lparr>Kind = Macro, R = M\<rparr>) exampleMacros = Raw"
    by (simp add: exampleTraverse_def exampleMacros_def Raw_def)
  note th = collectTokens_conflict_free [of exampleTraverse "\<lparr>TokensC = [], Elog = []\<rparr>" exampleMacros,
      unfolded Let_def Raw, folded Out_def]
  have b: "\<forall>T\<in>set Raw. \<forall>T'\<in>set Raw. R T' = R T \<and> T' \<noteq> T \<longrightarrow> (\<forall>U\<in>set Out. R U \<noteq> R T)"
    by (rule th [THEN conjunct2, THEN conjunct2, THEN conjunct2, THEN conjunct1])
  have c: "\<forall>T\<in>set Raw. (\<forall>T'\<in>set Raw. R T' = R T \<longrightarrow> T' = T) \<longrightarrow> T \<in> set Out"
    by (rule th [THEN conjunct2, THEN conjunct2, THEN conjunct2, THEN conjunct2])
  have "mkToken Class 1 0 1 1 \<in> set Raw" by (simp add: Raw_def)
  moreover have "\<forall>T'\<in>set Raw. R T' = R (mkToken Class 1 0 1 1) \<longrightarrow> T' = mkToken Class 1 0 1 1"
    by (simp add: Raw_def mkToken_def)
  ultimately have 1: "mkToken Class 1 0 1 1 \<in> set Out" using c by blast
  have v: "mkToken Variable 5 0 5 3 \<in> set Raw"
    and m: "\<lparr>Kind = Macro, R = R (mkToken Macro 5 0 5 3)\<rparr> \<in> set Raw"
    by (simp_all add: Raw_def)
  have "R \<lparr>Kind = Macro, R = R (mkToken Macro 5 0 5 3)\<rparr> = R (mkToken Variable 5 0 5 3)
      \<and> \<lparr>Kind = Macro, R = R (mkToken Macro 5 0 5 3)\<rparr> \<noteq> mkToken Variable 5 0 5 3"
    by (simp add: mkToken_def)
  with b v m have "\<forall>U\<in>set Out. R U \<noteq> R (mkToken Variable 5 0 5 3)" by blast
  then have 2: "mkToken Variable 5 0 5 3 \<notin> set Out" by blast
  from 1 2 show ?thesis unfolding Out_def by (rule conjI)
qed

section \<open>Completeness of the diff\<close>

lemma sorted_startLine:
  "sorted (map tokenKey Ts) \<Longrightarrow> sorted (map startLine Ts)"
proof (induction Ts)
  case Nil
  show ?case by simp
next
  case (Cons T Ts)
  from Cons.prems have s: "sorted (map tokenKey Ts)"
    and a: "\<forall>U\<in>set Ts. tokenKey T \<le> tokenKey U" by simp_all
  have "startLine T \<le> startLine U" if "U \<in> set Ts" for U
  proof -
    from a that have "tokenKey T \<le> tokenKey U" by blast
    then have "rangeKey (R T) \<le> rangeKey (R U)"
      unfolding tokenKey_def less_eq_prod_simp by (rule disjE) simp_all
    then have "positionKey (start (R T)) \<le> positionKey (start (R U))"
      unfolding rangeKey_def less_eq_prod_simp by (rule disjE) simp_all
    then show ?thesis
      unfolding positionKey_def startLine_def less_eq_prod_simp by (rule disjE) simp_all
  qed
  with Cons.IH [OF s] show ?case by simp
qed

lemma tokensOnLine_append:
  "tokensOnLine (Xs @ Ys) L = tokensOnLine Xs L @ tokensOnLine Ys L"
  by (simp add: tokensOnLine_def)

lemma tokensOnLine_empty:
  assumes "\<forall>T\<in>set Ts. startLine T \<noteq> L"
  shows "tokensOnLine Ts L = []"
  using assms by (simp add: tokensOnLine_def filter_empty_conv)

lemma takeLine_facts:
  assumes s: "sorted (map startLine Ts)" and lo: "\<forall>T\<in>set Ts. LN \<le> startLine T"
  defines "Rest \<equiv> drop (length (takeLine Ts LN)) Ts"
  shows "takeLine Ts LN = tokensOnLine Ts LN"
    and "\<forall>T\<in>set Rest. LN < startLine T"
    and "sorted (map startLine Rest)"
    and "tokensOnLine Rest L = (if L = LN then [] else tokensOnLine Ts L)"
proof -
  show tl: "takeLine Ts LN = tokensOnLine Ts LN"
    unfolding takeLine_def tokensOnLine_def by (rule sorted_takeWhile_eq_filter [OF s lo])
  have Rest: "Rest = dropWhile (\<lambda>T. startLine T = LN) Ts"
    unfolding Rest_def takeLine_def by (rule dropWhile_eq_drop [symmetric])
  have ne: "\<forall>T\<in>set Rest. startLine T \<noteq> LN"
    unfolding Rest by (rule sorted_dropWhile_neq [OF s lo])
  have sub: "set Rest \<subseteq> set Ts" unfolding Rest_def by (rule set_drop_subset)
  show gt: "\<forall>T\<in>set Rest. LN < startLine T"
  proof
    fix T assume T: "T \<in> set Rest"
    with sub have "T \<in> set Ts" by blast
    with lo have "LN \<le> startLine T" by blast
    moreover from ne T have "startLine T \<noteq> LN" by blast
    ultimately show "LN < startLine T" by simp
  qed
  show "sorted (map startLine Rest)"
    unfolding Rest_def drop_map [symmetric] using s by (rule sorted_wrt_drop)
  have split: "Ts = takeLine Ts LN @ Rest"
    unfolding Rest takeLine_def by (rule takeWhile_dropWhile_id [symmetric])
  show "tokensOnLine Rest L = (if L = LN then [] else tokensOnLine Ts L)"
  proof (cases "L = LN")
    case True
    have "tokensOnLine Rest LN = []" using ne by (rule tokensOnLine_empty)
    with True show ?thesis by simp
  next
    case False
    have "tokensOnLine (takeLine Ts LN) L = []"
      unfolding tl using False by (simp add: tokensOnLine_def filter_empty_conv)
    moreover have "tokensOnLine Ts L = tokensOnLine (takeLine Ts LN) L @ tokensOnLine Rest L"
      by (subst split) (rule tokensOnLine_append)
    ultimately show ?thesis using False by simp
  qed
qed

lemma NextLineNumber_greater:
  assumes "\<forall>T\<in>set NewRest. LN < startLine T" and "\<forall>T\<in>set OldRest. LN < startLine T"
    and "NewRest \<noteq> [] \<or> OldRest \<noteq> []"
  shows "LN < NextLineNumber NewRest OldRest"
proof (cases NewRest)
  case Nil
  with assms(3) obtain T Ts where O: "OldRest = T # Ts" by (cases OldRest) auto
  with assms(2) have "LN < startLine T" by simp
  with Nil O show ?thesis
    using startLine_le_INT_MAX [of T] by (simp add: NextLineNumber_def Let_def)
next
  case N: (Cons T Ts)
  with assms(1) have a: "LN < startLine T" by simp
  show ?thesis
  proof (cases OldRest)
    case Nil
    with N a show ?thesis
      using startLine_le_INT_MAX [of T] by (simp add: NextLineNumber_def Let_def)
  next
    case (Cons T' Ts')
    with assms(2) have "LN < startLine T'" by simp
    with N Cons a show ?thesis by (simp add: NextLineNumber_def Let_def)
  qed
qed

lemma NextLineNumber_lower:
  assumes "sorted (map startLine NewRest)" and "sorted (map startLine OldRest)"
  shows "\<forall>T\<in>set NewRest. NextLineNumber NewRest OldRest \<le> startLine T"
    and "\<forall>T\<in>set OldRest. NextLineNumber NewRest OldRest \<le> startLine T"
proof -
  have hd_le: "\<forall>T\<in>set Ts. (case Ts of [] \<Rightarrow> INT_MAX | Token # _ \<Rightarrow> startLine Token) \<le> startLine T"
    if "sorted (map startLine Ts)" for Ts
    using that by (cases Ts) auto
  have n: "NextLineNumber NewRest OldRest \<le> (case NewRest of [] \<Rightarrow> INT_MAX | Token # _ \<Rightarrow> startLine Token)"
    and o: "NextLineNumber NewRest OldRest \<le> (case OldRest of [] \<Rightarrow> INT_MAX | Token # _ \<Rightarrow> startLine Token)"
    by (simp_all add: NextLineNumber_def Let_def)
  show "\<forall>T\<in>set NewRest. NextLineNumber NewRest OldRest \<le> startLine T"
    using hd_le [OF assms(1)] n by (meson order_trans)
  show "\<forall>T\<in>set OldRest. NextLineNumber NewRest OldRest \<le> startLine T"
    using hd_le [OF assms(2)] o by (meson order_trans)
qed

lemma applyChangedLines_append:
  "applyChangedLines (Ds @ [D]) G = (applyChangedLines Ds G)(Line D := Tokens D)"
  by (simp add: applyChangedLines_def)

lemma diffLoop_apply:
  assumes "sorted (map startLine NewRest)" and "sorted (map startLine OldRest)"
    and "\<forall>T\<in>set NewRest. LineNumber \<le> startLine T"
    and "\<forall>T\<in>set OldRest. LineNumber \<le> startLine T"
    and "\<forall>L. LineNumber \<le> L \<longrightarrow> applyChangedLines DiffedLines G L = tokensOnLine OldRest L"
  shows "applyChangedLines (diffLoop LineNumber NewRest OldRest DiffedLines) G L =
           (if LineNumber \<le> L then tokensOnLine NewRest L
            else applyChangedLines DiffedLines G L)"
  using assms
proof (induction LineNumber NewRest OldRest DiffedLines arbitrary: L rule: diffLoop.induct)
  case (1 LN NewR OldR DL)
  note sN = "1.prems"(1) and sO = "1.prems"(2) and loN = "1.prems"(3) and loO = "1.prems"(4)
  have old: "applyChangedLines DL G L' = tokensOnLine OldR L'" if "LN \<le> L'" for L'
    using "1.prems"(5) that by blast
  show ?case
  proof (cases "NewR \<noteq> [] \<or> OldR \<noteq> []")
    case False
    then have e: "NewR = []" "OldR = []" by simp_all
    have r: "diffLoop LN NewR OldR DL = DL" using False by (subst diffLoop.simps) simp
    show ?thesis
    proof (cases "LN \<le> L")
      case True
      from old [OF True] have "applyChangedLines DL G L = tokensOnLine NewR L"
        unfolding e by simp
      with True show ?thesis unfolding r by simp
    next
      case False
      then show ?thesis unfolding r by simp
    qed
  next
    case True
    define NL where "NL = takeLine NewR LN"
    define OL where "OL = takeLine OldR LN"
    define DL' where "DL' = (if NL \<noteq> OL then DL @ [\<lparr>Line = LN, Tokens = NL\<rparr>] else DL)"
    define NewR' where "NewR' = drop (length NL) NewR"
    define OldR' where "OldR' = drop (length OL) OldR"
    define LN' where "LN' = NextLineNumber NewR' OldR'"
    have step: "diffLoop LN NewR OldR DL = diffLoop LN' NewR' OldR' DL'"
      using True unfolding LN'_def NewR'_def OldR'_def DL'_def NL_def OL_def
      by (subst diffLoop.simps) (simp add: Let_def)
    note fN = takeLine_facts [OF sN loN, folded NL_def, folded NewR'_def]
    note fO = takeLine_facts [OF sO loO, folded OL_def, folded OldR'_def]
    have K: "applyChangedLines DL' G L' = (if L' = LN then NL else applyChangedLines DL G L')" for L'
    proof (cases "NL \<noteq> OL")
      case True
      then have "DL' = DL @ [\<lparr>Line = LN, Tokens = NL\<rparr>]" by (simp add: DL'_def)
      then show ?thesis by (simp add: applyChangedLines_append)
    next
      case False
      then have d: "DL' = DL" and eq: "NL = OL" by (simp_all add: DL'_def)
      have "applyChangedLines DL G LN = OL" using old [of LN] fO(1) by simp
      then show ?thesis unfolding d eq by simp
    qed
    have oldR: "tokensOnLine OldR' L' = (if L' = LN then [] else tokensOnLine OldR L')" for L'
      by (rule fO(4))
    have newR: "tokensOnLine NewR' L' = (if L' = LN then [] else tokensOnLine NewR L')" for L'
      by (rule fN(4))
    show ?thesis
    proof (cases "NewR' \<noteq> [] \<or> OldR' \<noteq> []")
      case False
      then have e: "NewR' = []" "OldR' = []" by simp_all
      have r: "diffLoop LN' NewR' OldR' DL' = DL'" unfolding e by (subst diffLoop.simps) simp
      have emptyN: "tokensOnLine NewR L' = []" if "L' \<noteq> LN" for L'
        using newR [of L'] that unfolding e by (simp add: tokensOnLine_def)
      have emptyO: "tokensOnLine OldR L' = []" if "L' \<noteq> LN" for L'
        using oldR [of L'] that unfolding e by (simp add: tokensOnLine_def)
      show ?thesis
      proof (cases "L = LN")
        case True
        then show ?thesis unfolding step r K using fN(1) by simp
      next
        case neq: False
        show ?thesis
        proof (cases "LN \<le> L")
          case True
          from old [OF True] emptyO [OF neq] emptyN [OF neq] neq True
          show ?thesis unfolding step r K by simp
        next
          case False
          with neq show ?thesis unfolding step r K by simp
        qed
      qed
    next
      case ne: True
      have gt: "LN < LN'"
        unfolding LN'_def by (rule NextLineNumber_greater [OF fN(2) fO(2) ne])
      have lo': "\<forall>T\<in>set NewR'. LN' \<le> startLine T" "\<forall>T\<in>set OldR'. LN' \<le> startLine T"
        unfolding LN'_def by (rule NextLineNumber_lower [OF fN(3) fO(3)])+
      have old': "\<forall>L'. LN' \<le> L' \<longrightarrow> applyChangedLines DL' G L' = tokensOnLine OldR' L'"
      proof (intro allI impI)
        fix L' assume "LN' \<le> L'"
        with gt have "LN \<le> L'" "L' \<noteq> LN" by simp_all
        with old [of L'] show "applyChangedLines DL' G L' = tokensOnLine OldR' L'"
          unfolding K oldR by simp
      qed
      have IH: "applyChangedLines (diffLoop LN' NewR' OldR' DL') G L =
           (if LN' \<le> L then tokensOnLine NewR' L else applyChangedLines DL' G L)"
        by (rule "1.IH" [OF True NL_def OL_def DL'_def NewR'_def OldR'_def,
              folded LN'_def, OF fN(3) fO(3) lo' old'])
      show ?thesis
      proof (cases "LN' \<le> L")
        case True
        with gt have "LN \<le> L" "L \<noteq> LN" by simp_all
        with True show ?thesis unfolding step IH newR by simp
      next
        case below: False
        show ?thesis
        proof (cases "L = LN")
          case True
          with below show ?thesis unfolding step IH K using fN(1) by simp
        next
          case neq: False
          show ?thesis
          proof (cases "LN \<le> L")
            case False
            with below neq show ?thesis unfolding step IH K by simp
          next
            case True
            have "tokensOnLine NewR' L = []"
            proof (rule tokensOnLine_empty, rule ballI)
              fix T assume "T \<in> set NewR'"
              with lo'(1) have "LN' \<le> startLine T" by blast
              with below show "startLine T \<noteq> L" by simp
            qed
            then have n: "tokensOnLine NewR L = []" using newR [of L] neq by simp
            have "tokensOnLine OldR' L = []"
            proof (rule tokensOnLine_empty, rule ballI)
              fix T assume "T \<in> set OldR'"
              with lo'(2) have "LN' \<le> startLine T" by blast
              with below show "startLine T \<noteq> L" by simp
            qed
            then have o: "tokensOnLine OldR L = []" using oldR [of L] neq by simp
            from old [OF True] n o below neq True show ?thesis unfolding step IH K by simp
          qed
        qed
      qed
    qed
  qed
qed

lemma startLine_mkToken: "startLine (mkToken K L1 C1 L2 C2) = sint (word_of_int L1 :: 32 word)"
  by (simp add: startLine_def mkToken_def)

text \<open>
  C2. Let \<open>New\<close> and \<open>Old\<close> be sorted token sequences whose tokens start on lines that
  are not negative (coordinates are zero-based). Then \<open>diffHighlightings New Old\<close> returns
  changed-line records, and overwriting the per-start-line grouping of \<open>Old\<close> with these
  records, one after the other, gives the per-start-line grouping of \<open>New\<close>, at every
  line number.
\<close>

theorem diffHighlightings_complete:
  assumes "is_sorted New" and "is_sorted Old"
    and "\<forall>T\<in>set New \<union> set Old. 0 \<le> startLine T"
  shows "\<exists>Ds. diffHighlightings New Old = Some Ds
           \<and> applyChangedLines Ds (tokensOnLine Old) = tokensOnLine New"
proof -
  have sN: "sorted (map startLine New)"
    using assms(1) unfolding is_sorted_def by (rule sorted_startLine)
  have sO: "sorted (map startLine Old)"
    using assms(2) unfolding is_sorted_def by (rule sorted_startLine)
  have loN: "\<forall>T\<in>set New. 0 \<le> startLine T" and loO: "\<forall>T\<in>set Old. 0 \<le> startLine T"
    using assms(3) by blast+
  have init: "\<forall>L. 0 \<le> L \<longrightarrow> applyChangedLines [] (tokensOnLine Old) L = tokensOnLine Old L"
    by (simp add: applyChangedLines_def)
  have "applyChangedLines (diffLoop 0 New Old []) (tokensOnLine Old) L = tokensOnLine New L" for L
  proof (cases "0 \<le> L")
    case True
    then show ?thesis using diffLoop_apply [OF sN sO loN loO init, of L] by simp
  next
    case False
    have "tokensOnLine New L = []"
    proof (rule tokensOnLine_empty, rule ballI)
      fix T assume "T \<in> set New"
      with loN have "0 \<le> startLine T" by blast
      with False show "startLine T \<noteq> L" by simp
    qed
    moreover have "tokensOnLine Old L = []"
    proof (rule tokensOnLine_empty, rule ballI)
      fix T assume "T \<in> set Old"
      with loO have "0 \<le> startLine T" by blast
      with False show "startLine T \<noteq> L" by simp
    qed
    ultimately show ?thesis
      using False diffLoop_apply [OF sN sO loN loO init, of L]
      by (simp add: applyChangedLines_def)
  qed
  then have "applyChangedLines (diffLoop 0 New Old []) (tokensOnLine Old) = tokensOnLine New"
    by (rule ext)
  moreover have "diffHighlightings New Old = Some (diffLoop 0 New Old [])"
    using assms(1,2) by (simp add: diffHighlightings_def)
  ultimately show ?thesis by blast
qed

theorem diffHighlightings_complete_witness:
  "\<exists>Ds. diffHighlightings exampleNew exampleOld = Some Ds
       \<and> applyChangedLines Ds (tokensOnLine exampleOld) = tokensOnLine exampleNew"
proof -
  have a: "is_sorted exampleNew"
    by (simp add: is_sorted_def exampleNew_def tokenKey_mkToken)
  have b: "is_sorted exampleOld"
    by (simp add: is_sorted_def exampleOld_def tokenKey_mkToken)
  have c: "\<forall>T\<in>set exampleNew \<union> set exampleOld. 0 \<le> startLine T"
    by (simp add: exampleNew_def exampleOld_def startLine_mkToken)
  show ?thesis by (rule diffHighlightings_complete [OF a b c])
qed

lemma takeLine_Cons:
  "takeLine (T # Ts) L = (if startLine T = L then T # takeLine Ts L else [])"
  by (simp add: takeLine_def)

lemma takeLine_Nil: "takeLine [] L = []"
  by (simp add: takeLine_def)

text \<open>
  The changed lines of the two example snapshots: line 10 with its two new tokens, and
  line 12, which has lost its token.
\<close>

lemma diffHighlightings_example:
  "diffHighlightings exampleNew exampleOld =
     Some [\<lparr>Line = 10, Tokens = [mkToken Variable 10 0 10 1, mkToken Function 10 5 10 6]\<rparr>,
           \<lparr>Line = 12, Tokens = []\<rparr>]"
proof -
  have a: "is_sorted exampleNew"
    by (simp add: is_sorted_def exampleNew_def tokenKey_mkToken)
  have b: "is_sorted exampleOld"
    by (simp add: is_sorted_def exampleOld_def tokenKey_mkToken)
  have ne: "mkToken Variable 10 0 10 1 \<noteq> mkToken Variable 10 1 10 2" by (simp add: mkToken_def)
  have "diffLoop 0 exampleNew exampleOld [] =
     [\<lparr>Line = 10, Tokens = [mkToken Variable 10 0 10 1, mkToken Function 10 5 10 6]\<rparr>,
      \<lparr>Line = 12, Tokens = []\<rparr>]"
    unfolding exampleNew_def exampleOld_def
    apply (subst diffLoop.simps, simp add: Let_def takeLine_Cons takeLine_Nil startLine_mkToken NextLineNumber_def)
    apply (subst diffLoop.simps, simp add: Let_def takeLine_Cons takeLine_Nil startLine_mkToken NextLineNumber_def)
    apply (subst diffLoop.simps, simp add: Let_def takeLine_Cons takeLine_Nil startLine_mkToken NextLineNumber_def ne)
    apply (subst diffLoop.simps, simp add: Let_def takeLine_Cons takeLine_Nil startLine_mkToken NextLineNumber_def INT_MAX_def)
    apply (subst diffLoop.simps, simp)
    done
  with a b show ?thesis by (simp add: diffHighlightings_def)
qed

section \<open>The base64 payload where plain char is unsigned\<close>

lemma Table_all:
  "list_all (\<lambda>n. Table ! n \<noteq> CHR ''='' \<and> base64Value (Table ! n) = word_of_nat n) [0..<64]"
  by code_simp

lemma encodeBase64Loop_step:
  "I + 2 < length Bytes \<Longrightarrow>
     encodeBase64Loop S Bytes I Res =
       encodeBase64Loop S Bytes (I + 3)
         (Res @ encodeGroup S (Bytes ! I) (Bytes ! (I + 1)) (Bytes ! (I + 2)))"
  by (subst encodeBase64Loop.simps) (simp add: Let_def encodeGroup_def)

lemma encodeBase64Loop_stop:
  "\<not> I + 2 < length Bytes \<Longrightarrow> encodeBase64Loop S Bytes I Res = (I, Res)"
  by (subst encodeBase64Loop.simps) simp

lemma encodeBase64Loop_prefix:
  "encodeBase64Loop S Bytes I (P @ Res) =
     (fst (encodeBase64Loop S Bytes I Res), P @ snd (encodeBase64Loop S Bytes I Res))"
proof (induction "length Bytes - I" arbitrary: I Res rule: less_induct)
  case less
  show ?case
  proof (cases "I + 2 < length Bytes")
    case True
    have m: "length Bytes - (I + 3) < length Bytes - I" using True by simp
    show ?thesis
      unfolding encodeBase64Loop_step [OF True] append_assoc
      by (rule less [OF m])
  next
    case False
    show ?thesis unfolding encodeBase64Loop_stop [OF False] by simp
  qed
qed

lemma encodeBase64Loop_shift:
  "encodeBase64Loop S (B0 # B1 # B2 # Bytes) (I + 3) Res =
     (fst (encodeBase64Loop S Bytes I Res) + 3, snd (encodeBase64Loop S Bytes I Res))"
proof (induction "length Bytes - I" arbitrary: I Res rule: less_induct)
  case less
  have n: "(B0 # B1 # B2 # Bytes) ! (J + 3) = Bytes ! J" for J
    by (simp add: numeral_3_eq_3)
  show ?case
  proof (cases "I + 2 < length Bytes")
    case True
    have m: "length Bytes - (I + 3) < length Bytes - I" using True by simp
    have c: "(I + 3) + 2 < length (B0 # B1 # B2 # Bytes)" using True by simp
    have i: "I + 3 + 1 = (I + 1) + 3" "I + 3 + 2 = (I + 2) + 3" by simp_all
    show ?thesis
      unfolding encodeBase64Loop_step [OF c] encodeBase64Loop_step [OF True] i n
      by (rule less [OF m])
  next
    case False
    then have c: "\<not> (I + 3) + 2 < length (B0 # B1 # B2 # Bytes)" by simp
    show ?thesis
      unfolding encodeBase64Loop_stop [OF c] encodeBase64Loop_stop [OF False] by simp
  qed
qed

lemma encodeBase64_Nil: "encodeBase64 S [] = []"
  by (simp add: encodeBase64_def encodeBase64Loop_stop)

lemma encodeBase64_one:
  "encodeBase64 S [B0] =
     (let X = push_bit 16 (promoteChar S B0) in
      [Table ! unat (drop_bit 18 X AND 63), Table ! unat (drop_bit 12 X AND 63),
       CHR ''='', CHR ''=''])"
  by (simp add: encodeBase64_def encodeBase64Loop_stop Let_def)

lemma encodeBase64_two:
  "encodeBase64 S [B0, B1] =
     (let X = push_bit 16 (promoteChar S B0) + push_bit 8 (promoteChar S B1) in
      [Table ! unat (drop_bit 18 X AND 63), Table ! unat (drop_bit 12 X AND 63),
       Table ! unat (drop_bit 6 X AND 63), CHR ''=''])"
  by (simp add: encodeBase64_def encodeBase64Loop_stop Let_def)

lemma encodeBase64_three:
  "encodeBase64 S (B0 # B1 # B2 # Bytes) = encodeGroup S B0 B1 B2 @ encodeBase64 S Bytes"
proof -
  obtain I Res where r: "encodeBase64Loop S Bytes 0 [] = (I, Res)"
    by (cases "encodeBase64Loop S Bytes 0 []")
  have c: "0 + 2 < length (B0 # B1 # B2 # Bytes)" by simp
  have "encodeBase64Loop S (B0 # B1 # B2 # Bytes) 0 [] =
      encodeBase64Loop S (B0 # B1 # B2 # Bytes) (0 + 3) ([] @ encodeGroup S B0 B1 B2)"
    using encodeBase64Loop_step [OF c, of S "[]"] by simp
  also have "\<dots> = (fst (encodeBase64Loop S Bytes 0 (encodeGroup S B0 B1 B2)) + 3,
                     snd (encodeBase64Loop S Bytes 0 (encodeGroup S B0 B1 B2)))"
    unfolding append_Nil by (rule encodeBase64Loop_shift)
  also have "\<dots> = (I + 3, encodeGroup S B0 B1 B2 @ Res)"
    using encodeBase64Loop_prefix [of S Bytes 0 "encodeGroup S B0 B1 B2" "[]"] r by simp
  finally have l: "encodeBase64Loop S (B0 # B1 # B2 # Bytes) 0 [] = (I + 3, encodeGroup S B0 B1 B2 @ Res)" .
  have n: "(B0 # B1 # B2 # Bytes) ! (J + 3) = Bytes ! J" for J
    by (simp add: numeral_3_eq_3)
  have i: "I + 3 + 1 = (I + 1) + 3" by simp
  show ?thesis
    unfolding encodeBase64_def l r prod.case i n
    by (simp add: Let_def)
qed

lemma and63: "(w :: 32 word) AND 63 = take_bit 6 w"
  by (simp add: take_bit_eq_mask mask_eq_exp_minus_1)

lemma add_is_or:
  fixes a b :: "32 word"
  assumes "\<And>n. \<not> bit a n \<or> \<not> bit b n"
  shows "a + b = a OR b"
  using assms by (rule disjunctive_add)

lemma X_bits:
  fixes b0 b1 b2 :: "8 word"
  shows "push_bit 16 (ucast b0 :: 32 word) + push_bit 8 (ucast b1) + ucast b2
       = (push_bit 16 (ucast b0) OR push_bit 8 (ucast b1)) OR ucast b2"
proof -
  have 1: "push_bit 16 (ucast b0 :: 32 word) + push_bit 8 (ucast b1)
      = push_bit 16 (ucast b0) OR push_bit 8 (ucast b1)"
    by (rule disjunctive_add) (auto simp: bit_simps dest: bit_imp_le_length)
  have 2: "(push_bit 16 (ucast b0 :: 32 word) OR push_bit 8 (ucast b1)) + ucast b2
      = (push_bit 16 (ucast b0) OR push_bit 8 (ucast b1)) OR ucast b2"
    by (rule disjunctive_add) (auto simp: bit_simps dest: bit_imp_le_length)
  show ?thesis unfolding 1 2 ..
qed

lemma regroup:
  fixes X :: "32 word"
  assumes "take_bit 24 X = X"
  shows "push_bit 18 (take_bit 6 (drop_bit 18 X)) + push_bit 12 (take_bit 6 (drop_bit 12 X))
         + push_bit 6 (take_bit 6 (drop_bit 6 X)) + take_bit 6 X = X"
proof -
  have 1: "push_bit 18 (take_bit 6 (drop_bit 18 X)) + push_bit 12 (take_bit 6 (drop_bit 12 X))
      = push_bit 18 (take_bit 6 (drop_bit 18 X)) OR push_bit 12 (take_bit 6 (drop_bit 12 X))"
    by (rule disjunctive_add) (auto simp: bit_simps dest: bit_imp_le_length)
  have 2: "(push_bit 18 (take_bit 6 (drop_bit 18 X)) OR push_bit 12 (take_bit 6 (drop_bit 12 X)))
        + push_bit 6 (take_bit 6 (drop_bit 6 X))
      = (push_bit 18 (take_bit 6 (drop_bit 18 X)) OR push_bit 12 (take_bit 6 (drop_bit 12 X)))
        OR push_bit 6 (take_bit 6 (drop_bit 6 X))"
    by (rule disjunctive_add) (auto simp: bit_simps dest: bit_imp_le_length)
  have 3: "((push_bit 18 (take_bit 6 (drop_bit 18 X)) OR push_bit 12 (take_bit 6 (drop_bit 12 X)))
        OR push_bit 6 (take_bit 6 (drop_bit 6 X))) + take_bit 6 X
      = ((push_bit 18 (take_bit 6 (drop_bit 18 X)) OR push_bit 12 (take_bit 6 (drop_bit 12 X)))
        OR push_bit 6 (take_bit 6 (drop_bit 6 X))) OR take_bit 6 X"
    by (rule disjunctive_add) (auto simp: bit_simps dest: bit_imp_le_length)
  have "((push_bit 18 (take_bit 6 (drop_bit 18 X)) OR push_bit 12 (take_bit 6 (drop_bit 12 X)))
        OR push_bit 6 (take_bit 6 (drop_bit 6 X))) OR take_bit 6 X = take_bit 24 X"
  proof (rule bit_eqI)
    fix n :: nat
    consider "n < 6" | "6 \<le> n" "n < 12" | "12 \<le> n" "n < 18" | "18 \<le> n" "n < 24" | "24 \<le> n"
      by linarith
    then show "bit (((push_bit 18 (take_bit 6 (drop_bit 18 X)) OR push_bit 12 (take_bit 6 (drop_bit 12 X)))
        OR push_bit 6 (take_bit 6 (drop_bit 6 X))) OR take_bit 6 X) n = bit (take_bit 24 X) n"
      by cases (auto simp: bit_simps)
  qed
  then show ?thesis unfolding 1 2 3 using assms by simp
qed

lemma bytes_back:
  fixes b0 b1 b2 :: "8 word"
  defines "X \<equiv> (push_bit 16 (ucast b0 :: 32 word) OR push_bit 8 (ucast b1)) OR ucast b2"
  shows "take_bit 24 X = X" and "(ucast (drop_bit 16 X) :: 8 word) = b0"
    and "(ucast (drop_bit 8 X) :: 8 word) = b1" and "(ucast X :: 8 word) = b2"
proof -
  show "take_bit 24 X = X" unfolding X_def by (rule bit_eqI) (auto simp: bit_simps dest: bit_imp_le_length)
  show "(ucast (drop_bit 16 X) :: 8 word) = b0" unfolding X_def by (rule bit_eqI) (auto simp: bit_simps dest: bit_imp_le_length)
  show "(ucast (drop_bit 8 X) :: 8 word) = b1" unfolding X_def by (rule bit_eqI) (auto simp: bit_simps dest: bit_imp_le_length)
  show "(ucast X :: 8 word) = b2" unfolding X_def by (rule bit_eqI) (auto simp: bit_simps dest: bit_imp_le_length)
qed


lemma Table_nth:
  assumes "n < 64"
  shows "Table ! n \<noteq> CHR ''=''" and "base64Value (Table ! n) = word_of_nat n"
proof -
  from assms have "n \<in> set [0..<64]" by simp
  with Table_all have "Table ! n \<noteq> CHR ''='' \<and> base64Value (Table ! n) = word_of_nat n"
    unfolding list_all_iff by (rule bspec)
  then show "Table ! n \<noteq> CHR ''=''" and "base64Value (Table ! n) = word_of_nat n"
    by (rule conjunct1, rule conjunct2)
qed

lemma sextet:
  fixes w :: "32 word"
  shows "Table ! unat (w AND 63) \<noteq> CHR ''=''"
    and "base64Value (Table ! unat (w AND 63)) = take_bit 6 w"
proof -
  have "unat (take_bit 6 w) < 2 ^ 6"
    unfolding unsigned_take_bit_eq by (rule take_bit_nat_less_exp)
  then have lt: "unat (w AND 63) < 64" unfolding and63 by simp
  show "Table ! unat (w AND 63) \<noteq> CHR ''=''" by (rule Table_nth(1) [OF lt])
  show "base64Value (Table ! unat (w AND 63)) = take_bit 6 w"
    unfolding Table_nth(2) [OF lt] by (simp add: and63)
qed

lemma decodeBase64_quad:
  fixes X :: "32 word"
  assumes "take_bit 24 X = X"
  shows "decodeBase64 (Table ! unat (drop_bit 18 X AND 63) # Table ! unat (drop_bit 12 X AND 63)
            # Table ! unat (drop_bit 6 X AND 63) # Table ! unat (X AND 63) # Rest)
         = ucast (drop_bit 16 X) # ucast (drop_bit 8 X) # ucast X # decodeBase64 Rest"
  unfolding decodeBase64.simps sextet Let_def regroup [OF assms]
  by (simp add: sextet)

lemma decodeBase64_group:
  "decodeBase64 (encodeGroup False B0 B1 B2 @ Rest) = B0 # B1 # B2 # decodeBase64 Rest"
proof -
  define X where "X = (push_bit 16 (ucast B0 :: 32 word) OR push_bit 8 (ucast B1)) OR ucast B2"
  have g: "encodeGroup False B0 B1 B2 =
      [Table ! unat (drop_bit 18 X AND 63), Table ! unat (drop_bit 12 X AND 63),
       Table ! unat (drop_bit 6 X AND 63), Table ! unat (X AND 63)]"
    unfolding encodeGroup_def promoteChar_def Let_def if_False X_bits X_def ..
  note b = bytes_back [of B0 B1 B2, folded X_def]
  show ?thesis
    unfolding g append_Cons append_Nil decodeBase64_quad [OF b(1)] b(2,3,4) ..
qed

lemma decodeBase64_one: "decodeBase64 (encodeBase64 False [B0]) = [B0]"
proof -
  define X where "X = (push_bit 16 (ucast B0 :: 32 word) OR push_bit 8 (ucast (0 :: 8 word))) OR ucast (0 :: 8 word)"
  have X: "push_bit 16 (ucast B0 :: 32 word) = X" unfolding X_def by simp
  note b = bytes_back [of B0 0 0, folded X_def]
  have z2: "take_bit 6 (drop_bit 6 X) = 0" unfolding X [symmetric]
    by (rule bit_eqI) (auto simp: bit_simps dest: bit_imp_le_length)
  have z3: "take_bit 6 X = 0" unfolding X [symmetric]
    by (rule bit_eqI) (auto simp: bit_simps dest: bit_imp_le_length)
  have r: "push_bit 18 (take_bit 6 (drop_bit 18 X)) + push_bit 12 (take_bit 6 (drop_bit 12 X)) = X"
    using regroup [OF b(1)] unfolding z2 z3 by simp
  have e: "base64Value CHR ''='' = 0" by (simp add: base64Value_def)
  have "decodeBase64 (encodeBase64 False [B0]) = [ucast (drop_bit 16 X)]"
    unfolding encodeBase64_one promoteChar_def if_False X Let_def decodeBase64.simps sextet e
    using r by simp
  then show ?thesis unfolding b(2) .
qed

lemma decodeBase64_two: "decodeBase64 (encodeBase64 False [B0, B1]) = [B0, B1]"
proof -
  define X where "X = (push_bit 16 (ucast B0 :: 32 word) OR push_bit 8 (ucast B1)) OR ucast (0 :: 8 word)"
  have X: "push_bit 16 (ucast B0 :: 32 word) + push_bit 8 (ucast B1) = X"
    using X_bits [of B0 B1 0] unfolding X_def by simp
  note b = bytes_back [of B0 B1 0, folded X_def]
  have z3: "take_bit 6 X = 0" unfolding X_def
    by (rule bit_eqI) (auto simp: bit_simps dest: bit_imp_le_length)
  have r: "push_bit 18 (take_bit 6 (drop_bit 18 X)) + push_bit 12 (take_bit 6 (drop_bit 12 X))
      + push_bit 6 (take_bit 6 (drop_bit 6 X)) = X"
    using regroup [OF b(1)] unfolding z3 by simp
  have e: "base64Value CHR ''='' = 0" by (simp add: base64Value_def)
  have "decodeBase64 (encodeBase64 False [B0, B1]) = [ucast (drop_bit 16 X), ucast (drop_bit 8 X)]"
    unfolding encodeBase64_two promoteChar_def if_False X Let_def decodeBase64.simps sextet e
    using r by (simp add: sextet)
  then show ?thesis unfolding b(2,3) .
qed

lemma decodeBase64_encodeBase64: "decodeBase64 (encodeBase64 False Bytes) = Bytes"
proof (induction "length Bytes" arbitrary: Bytes rule: less_induct)
  case less
  show ?case
  proof (cases Bytes)
    case Nil
    then show ?thesis by (simp add: encodeBase64_Nil)
  next
    case 1: (Cons B0 Bs1)
    show ?thesis
    proof (cases Bs1)
      case Nil
      with 1 show ?thesis by (simp only: decodeBase64_one)
    next
      case 2: (Cons B1 Bs2)
      show ?thesis
      proof (cases Bs2)
        case Nil
        with 1 2 show ?thesis by (simp only: decodeBase64_two)
      next
        case 3: (Cons B2 Bs3)
        have "length Bs3 < length Bytes" unfolding 1 2 3 by simp
        then have "decodeBase64 (encodeBase64 False Bs3) = Bs3" by (rule less)
        then show ?thesis
          unfolding 1 2 3 encodeBase64_three decodeBase64_group by simp
      qed
    qed
  qed
qed

text \<open>
  Where plain \<open>char\<close> is unsigned, the payload of every line decodes to the triples of
  the tokens of the line.
\<close>

lemma decodeRecords_unsigned_char:
  "map (\<lambda>I. decodeRecords (decodeBase64 (InfoTokens I))) (toSemanticHighlightingInformation False Ls)
     = map (\<lambda>L. map tokenTriple (Tokens L)) Ls"
  by (simp add: toSemanticHighlightingInformation_def comp_def decodeBase64_encodeBase64
        decodeRecords_writeLineTokens)

text \<open>
  Where plain \<open>char\<close> is unsigned, the encoder returns the empty list for the empty list
  of changed lines, and otherwise one entry for each changed line, in order, whose payload
  decodes to the bytes written for the tokens of the line: the records of
  \<open>decodeRecords_writeLineTokens\<close>, eight bytes for each token.
\<close>

lemma payload_unsigned_char:
  "toSemanticHighlightingInformation False [] = []
   \<and> map InfoLine (toSemanticHighlightingInformation False Ls) = map Line Ls
   \<and> map (\<lambda>I. decodeBase64 (InfoTokens I)) (toSemanticHighlightingInformation False Ls)
       = map (\<lambda>L. writeLineTokens (Tokens L) []) Ls"
  by (simp add: toSemanticHighlightingInformation_def comp_def decodeBase64_encodeBase64)

section \<open>The base64 payload where plain char is signed\<close>

text \<open>
  A line with two tokens, the second one at column 128. The byte 128 of its start column
  is the third byte of a group of three in \<open>encodeBase64\<close>.
\<close>

lemma bytes_example:
  "writeLineTokens [mkToken Variable 0 0 0 1, mkToken Function 0 128 0 129] []
     = [0, 0, 0, 0, 0, 1, 0, 0, 0, 0, 0, 128, 0, 1, 0, 3]"
  by (simp add: mkToken_def write32be_def write16be_def)

lemma encode_example_signed:
  "encodeBase64 True [0, 0, 0, 0, 0, 1, 0, 0, 0, 0, 0, 128, 0, 1, 0, 3] = ''AAAAAAABAAAA//+AAAEAAw==''"
  unfolding encodeBase64_def
  by (subst encodeBase64Loop.simps, simp add: Let_def promoteChar_def Table_def)+

lemma encode_example_unsigned:
  "encodeBase64 False [0, 0, 0, 0, 0, 1, 0, 0, 0, 0, 0, 128, 0, 1, 0, 3] = ''AAAAAAABAAAAAACAAAEAAw==''"
  unfolding encodeBase64_def
  by (subst encodeBase64Loop.simps, simp add: Let_def promoteChar_def Table_def)+

lemma decode_example_signed:
  "decodeRecords (decodeBase64 ''AAAAAAABAAAA//+AAAEAAw=='') = [(0, 1, 0), (16777088, 1, 3)]"
  by (simp add: base64Value_def Table_def bigEndian_def)

lemma decode_example_unsigned:
  "decodeRecords (decodeBase64 ''AAAAAAABAAAAAACAAAEAAw=='') = [(0, 1, 0), (128, 1, 3)]"
  by (simp add: base64Value_def Table_def bigEndian_def)

text \<open>
  C3. Where plain \<open>char\<close> is signed, the payload of this line does not decode to the
  triples of its tokens: the byte 128 is promoted to the \<open>int\<close> -128, the sum \<open>X\<close> is
  \<open>0xFFFFFF80\<close>, and the decoded start column of the second token is 16777088 instead of
  128. Where plain \<open>char\<close> is unsigned the payload of the same line is
  \<open>AAAAAAABAAAAAACAAAEAAw==\<close>, and the payload of every line decodes to the triples of its
  tokens (\<open>decodeRecords_unsigned_char\<close>).
\<close>

theorem toSemanticHighlightingInformation_signed_char:
  "toSemanticHighlightingInformation True
     [\<lparr>Line = 0, Tokens = [mkToken Variable 0 0 0 1, mkToken Function 0 128 0 129]\<rparr>]
     = [\<lparr>InfoLine = 0, InfoTokens = ''AAAAAAABAAAA//+AAAEAAw==''\<rparr>]
   \<and> decodeRecords (decodeBase64 ''AAAAAAABAAAA//+AAAEAAw=='') = [(0, 1, 0), (16777088, 1, 3)]
   \<and> map tokenTriple [mkToken Variable 0 0 0 1, mkToken Function 0 128 0 129]
       = [(0, 1, 0), (128, 1, 3)]"
proof (intro conjI)
  show "toSemanticHighlightingInformation True
     [\<lparr>Line = 0, Tokens = [mkToken Variable 0 0 0 1, mkToken Function 0 128 0 129]\<rparr>]
     = [\<lparr>InfoLine = 0, InfoTokens = ''AAAAAAABAAAA//+AAAEAAw==''\<rparr>]"
    unfolding toSemanticHighlightingInformation_def
    by (simp only: list.map LineHighlightings.simps bytes_example encode_example_signed) simp
  show "decodeRecords (decodeBase64 ''AAAAAAABAAAA//+AAAEAAw=='') = [(0, 1, 0), (16777088, 1, 3)]"
    by (rule decode_example_signed)
  show "map tokenTriple [mkToken Variable 0 0 0 1, mkToken Function 0 128 0 129]
       = [(0, 1, 0), (128, 1, 3)]"
    by (simp add: tokenTriple_mkToken)
qed

text \<open>
  A line with one token, from column 0 to column 200. The byte 200 of its length is the
  third byte of a group of three in \<open>encodeBase64\<close>.
\<close>

lemma bytes_long_token:
  "writeLineTokens [mkToken Variable 0 0 0 200] [] = [0, 0, 0, 0, 0, 200, 0, 0]"
  by (simp add: mkToken_def write32be_def write16be_def)

lemma encode_long_token_signed:
  "encodeBase64 True [0, 0, 0, 0, 0, 200, 0, 0] = ''AAAA///IAAA=''"
  unfolding encodeBase64_def
  by (subst encodeBase64Loop.simps, simp add: Let_def promoteChar_def Table_def)+

lemma encode_long_token_unsigned:
  "encodeBase64 False [0, 0, 0, 0, 0, 200, 0, 0] = ''AAAAAADIAAA=''"
  unfolding encodeBase64_def
  by (subst encodeBase64Loop.simps, simp add: Let_def promoteChar_def Table_def)+

lemma decode_long_token_signed:
  "decodeBase64 ''AAAA///IAAA='' = [0, 0, 0, 255, 255, 200, 0, 0]"
  by (simp add: base64Value_def Table_def)

text \<open>
  C5. Where plain \<open>char\<close> is signed, the payload emitted for this line is not the record
  of its token. The eight bytes written are \<open>00 00 00 00 00 C8 00 00\<close>: the start column
  0, the length 200 and the kind ordinal 0. The byte \<open>C8\<close> is promoted to the \<open>int\<close> -56,
  the sum \<open>X\<close> of its group is \<open>0xFFFFFFC8\<close>, and the payload \<open>AAAA///IAAA=\<close> holds the
  bytes \<open>00 00 00 FF FF C8 00 00\<close>: the start column 255 and the length 65480. Where plain
  \<open>char\<close> is unsigned the payload of every line holds the bytes written
  (\<open>payload_unsigned_char\<close>).
\<close>

theorem toSemanticHighlightingInformation_signed_char_record:
  "toSemanticHighlightingInformation True [\<lparr>Line = 0, Tokens = [mkToken Variable 0 0 0 200]\<rparr>]
     = [\<lparr>InfoLine = 0, InfoTokens = ''AAAA///IAAA=''\<rparr>]
   \<and> decodeBase64 ''AAAA///IAAA='' = [0, 0, 0, 255, 255, 200, 0, 0]
   \<and> decodeRecords (decodeBase64 ''AAAA///IAAA='') = [(255, 65480, 0)]
   \<and> writeLineTokens [mkToken Variable 0 0 0 200] [] = [0, 0, 0, 0, 0, 200, 0, 0]
   \<and> map tokenTriple [mkToken Variable 0 0 0 200] = [(0, 200, 0)]"
proof (intro conjI)
  show "toSemanticHighlightingInformation True [\<lparr>Line = 0, Tokens = [mkToken Variable 0 0 0 200]\<rparr>]
     = [\<lparr>InfoLine = 0, InfoTokens = ''AAAA///IAAA=''\<rparr>]"
    unfolding toSemanticHighlightingInformation_def
    by (simp only: list.map LineHighlightings.simps bytes_long_token encode_long_token_signed) simp
  show "decodeBase64 ''AAAA///IAAA='' = [0, 0, 0, 255, 255, 200, 0, 0]"
    by (rule decode_long_token_signed)
  show "decodeRecords (decodeBase64 ''AAAA///IAAA='') = [(255, 65480, 0)]"
    unfolding decode_long_token_signed by (simp add: bigEndian_def)
  show "writeLineTokens [mkToken Variable 0 0 0 200] [] = [0, 0, 0, 0, 0, 200, 0, 0]"
    by (rule bytes_long_token)
  show "map tokenTriple [mkToken Variable 0 0 0 200] = [(0, 200, 0)]"
    by (simp add: tokenTriple_mkToken)
qed

end
